theory Spec2Isabelle
  imports Complex_Main "HOL-Library.Word" "HOL-Library.Log_Nat"
begin

unbundle bit_operations_syntax

section \<open>Machine types\<close>

text \<open>
  The program is a Windows console program (\<open>cpu_ram_stress.cpp\<close>) built for a 64-bit
  target: \<open>unsigned long long\<close>, \<open>ULONGLONG\<close> and \<open>SIZE_T\<close> are 64-bit unsigned,
  \<open>unsigned int\<close> and \<open>DWORD\<close> are 32-bit unsigned, \<open>long\<close> is 32-bit signed and
  \<open>char\<close> is one byte. Unsigned arithmetic wraps around, which is what \<open>+\<close>, \<open>-\<close> and
  \<open>*\<close> on words do. Division and remainder by zero are undefined behaviour in C++;
  they are the error value \<open>DivisionByZero\<close> here.
\<close>

type_synonym u64 = "64 word"
type_synonym u32 = "32 word"
type_synonym long = "32 word"
type_synonym byte = "8 word"

datatype error = DivisionByZero

section \<open>PrimalityProbe: \<open>is_prime\<close> (lines 15 to 24)\<close>

text \<open>
  The \<open>for\<close> loop of \<open>is_prime\<close>, entered with \<open>i = 5\<close>: the guard \<open>i * i <= num\<close> is
  computed in 64-bit arithmetic, \<open>||\<close> evaluates its right operand only when the left
  one is false, and \<open>i += 6\<close> wraps around.
\<close>

definition lap_rank :: "u64 \<Rightarrow> nat" where
  "lap_rank i = (let r = unat i mod 6 in
     if r = 4 \<or> r = 5 then 2 else if r = 0 \<or> r = 1 then 1 else 0)"

definition loop_measure :: "u64 \<Rightarrow> nat" where
  "loop_measure i = lap_rank i * 2 ^ 64 + (2 ^ 64 - unat i)"

function is_prime_loop :: "u64 \<Rightarrow> u64 \<Rightarrow> error + bool" where
  "is_prime_loop i num =
     (if i * i \<le> num then
        (if i = 0 then Inl DivisionByZero
         else if num mod i = 0 then Inr False
         else if i + 2 = 0 then Inl DivisionByZero
         else if num mod (i + 2) = 0 then Inr False
         else is_prime_loop (i + 6) num)
      else Inr True)"
  by pat_completeness auto

text \<open>
  Termination holds from every \<open>i\<close>, not only from 5. Adding 6 keeps the parity of \<open>i\<close>
  and, between two wrap-arounds, its remainder modulo 6; a wrap-around adds 2 to that
  remainder, since \<open>2 ^ 64 mod 6 = 4\<close>. An odd \<open>i\<close> therefore reaches 1 (which divides
  \<open>num\<close>) after at most two wrap-arounds, and an even \<open>i\<close> reaches 0 or \<open>2 ^ 64 - 2\<close>
  (a zero divisor). \<open>lap_rank\<close> counts the wrap-arounds that remain.
\<close>

termination is_prime_loop
proof (relation "measure (\<lambda>(i, num). loop_measure i)")
  show "wf (measure (\<lambda>(i, num). loop_measure i))" by simp
next
  fix i num :: u64
  assume "i \<noteq> 0" and "num mod i \<noteq> 0" and "i + 2 \<noteq> 0" and "num mod (i + 2) \<noteq> 0"
  have m2: "i \<noteq> - 2" using \<open>i + 2 \<noteq> 0\<close> by auto
  have m1: "i \<noteq> - 1"
  proof
    assume "i = - 1"
    then have "i + 2 = 1" by simp
    with \<open>num mod (i + 2) \<noteq> 0\<close> show False by simp
  qed
  have "loop_measure (i + 6) < loop_measure i"
  proof (cases "unat i + 6 < 2 ^ 64")
    case True
    then have u: "unat (i + 6) = unat i + 6" by (simp add: unat_word_ariths)
    have "lap_rank (i + 6) = lap_rank i" by (simp add: lap_rank_def u)
    then show ?thesis using True by (simp add: loop_measure_def u)
  next
    case False
    define k where "k = 2 ^ 64 - unat i"
    have lt: "unat i < 2 ^ 64" using unsigned_less [of i, where 'a = nat] by simp
    have sum: "unat i + k = 2 ^ 64" using lt by (simp add: k_def)
    have "(word_of_nat (unat i + k) :: u64) = 0"
      unfolding sum by (simp add: word_of_nat_eq_0_iff)
    then have "i + word_of_nat k = 0" by simp
    then have eq: "i = - word_of_nat k" by (simp add: eq_neg_iff_add_eq_0)
    have "1 \<le> k" and "k \<le> 6" using lt False by (simp_all add: k_def)
    then consider "k = 1" | "k = 2" | "k = 3" | "k = 4" | "k = 5" | "k = 6" by linarith
    then have "i = - 6 \<or> i = - 5 \<or> i = - 4 \<or> i = - 3 \<or> i = - 2 \<or> i = - 1"
      by cases (simp_all add: eq)
    with m1 m2 consider "i = - 6" | "i = - 5" | "i = - 4" | "i = - 3" by blast
    then show ?thesis
      by cases (simp_all add: loop_measure_def lap_rank_def)
  qed
  then show "((i + 6, num), (i, num)) \<in> measure (\<lambda>(i, num). loop_measure i)" by simp
qed

declare is_prime_loop.simps [simp del]

definition is_prime :: "u64 \<Rightarrow> error + bool" where
  "is_prime num =
     (if num \<le> 1 then Inr False
      else if num = 2 \<or> num = 3 then Inr True
      else if num mod 2 = 0 \<or> num mod 3 = 0 then Inr False
      else is_prime_loop 5 num)"

text \<open>The loop takes another iteration from \<open>i\<close>: the guard holds and neither test returns.\<close>

definition loop_continues :: "u64 \<Rightarrow> u64 \<Rightarrow> bool" where
  "loop_continues i num \<longleftrightarrow>
     i * i \<le> num \<and> i \<noteq> 0 \<and> num mod i \<noteq> 0 \<and> i + 2 \<noteq> 0 \<and> num mod (i + 2) \<noteq> 0"

text \<open>
  What the specification compares \<open>is_prime\<close> with: primality of a natural number, the
  trial divisors 5, 7, 11, 13, ... (the values of \<open>i\<close> and \<open>i + 2\<close>) up to the integer
  square root, and the table of the primes below 100.
\<close>

definition prime_nat :: "nat \<Rightarrow> bool" where
  "prime_nat n \<longleftrightarrow> 1 < n \<and> (\<forall>d\<in>{2..<n}. \<not> d dvd n)"

definition has_trial_divisor :: "nat \<Rightarrow> bool" where
  "has_trial_divisor n \<longleftrightarrow>
     (\<exists>d\<in>{5..n}. d * d \<le> n \<and> (d mod 6 = 5 \<or> d mod 6 = 1) \<and> d dvd n)"

definition prime_table :: "u64 list" where
  "prime_table = [2, 3, 5, 7, 11, 13, 17, 19, 23, 29, 31, 37, 41, 43, 47, 53, 59, 61, 67,
     71, 73, 79, 83, 89, 97]"

section \<open>Double-precision values\<close>

text \<open>
  A \<open>double\<close> is a finite number, an infinity or a NaN. A finite double is a real number
  of the form \<open>m * 2 ^ e\<close> with \<open>\<bar>m\<bar> < 2 ^ 53\<close> and \<open>- 1074 \<le> e \<le> 971\<close>. Every conversion
  and every arithmetic operation of the code yields the exact result rounded to the
  nearest double, ties going to the even significand (the IEEE 754 default mode), and an
  infinity when the rounded magnitude reaches \<open>2 ^ 1024\<close>. The special values follow
  IEEE 754 too: a non-zero number divided by zero is an infinity, \<open>0 / 0\<close>, \<open>inf - inf\<close> and
  \<open>0 * inf\<close> are NaN, and NaN propagates. The sign of zero is not modelled: every zero
  divisor in this program is the conversion of an unsigned integer, hence \<open>+0\<close>.
\<close>

datatype double = Finite real | PosInf | NegInf | NaN

text \<open>
  Rounding a real to the nearest integer, ties to even; the binary exponent \<open>e\<close> of a
  positive real \<open>x\<close>, with \<open>2 ^ e \<le> x < 2 ^ (e + 1)\<close>; the spacing of the doubles around
  \<open>x\<close>, which is \<open>2 ^ (e - 52)\<close> and \<open>2 ^ - 1074\<close> in the subnormal range; the nearest
  double of \<open>x\<close> as a real, overflow aside; and the double that results. The exponent is
  computed from the bit length of \<open>\<lfloor>x\<rfloor>\<close>, or of \<open>\<lceil>1 / x\<rceil> - 1\<close> below 1; that it brackets
  \<open>x\<close> as stated is lemma \<open>binary_exponent_bounds\<close>.
\<close>

definition round_half_even :: "real \<Rightarrow> int" where
  "round_half_even x =
     (let f = \<lfloor>x\<rfloor>; d = x - of_int f in
      if d < 1 / 2 then f else if 1 / 2 < d then f + 1 else if even f then f else f + 1)"

definition binary_exponent :: "real \<Rightarrow> int" where
  "binary_exponent x =
     (if 1 \<le> x then bitlen \<lfloor>x\<rfloor> - 1 else - bitlen (\<lceil>1 / x\<rceil> - 1))"

definition ulp :: "real \<Rightarrow> real" where
  "ulp x = 2 powi (max (binary_exponent \<bar>x\<bar>) (- 1022) - 52)"

definition round_real :: "real \<Rightarrow> real" where
  "round_real x = (if x = 0 then 0 else of_int (round_half_even (x / ulp x)) * ulp x)"

definition round_to_double :: "real \<Rightarrow> double" where
  "round_to_double x =
     (let r = round_real x in
      if 2 ^ 1024 \<le> \<bar>r\<bar> then (if 0 < r then PosInf else NegInf) else Finite r)"

fun double_div :: "double \<Rightarrow> double \<Rightarrow> double" where
  "double_div (Finite x) (Finite y) =
     (if y \<noteq> 0 then round_to_double (x / y)
      else if x = 0 then NaN else if 0 < x then PosInf else NegInf)"
| "double_div NaN _ = NaN"
| "double_div _ NaN = NaN"
| "double_div (Finite x) PosInf = Finite 0"
| "double_div (Finite x) NegInf = Finite 0"
| "double_div PosInf (Finite y) = (if 0 \<le> y then PosInf else NegInf)"
| "double_div NegInf (Finite y) = (if 0 \<le> y then NegInf else PosInf)"
| "double_div _ _ = NaN"

fun double_mul :: "double \<Rightarrow> double \<Rightarrow> double" where
  "double_mul (Finite x) (Finite y) = round_to_double (x * y)"
| "double_mul NaN _ = NaN"
| "double_mul _ NaN = NaN"
| "double_mul PosInf (Finite y) = (if y = 0 then NaN else if 0 < y then PosInf else NegInf)"
| "double_mul NegInf (Finite y) = (if y = 0 then NaN else if 0 < y then NegInf else PosInf)"
| "double_mul (Finite x) PosInf = (if x = 0 then NaN else if 0 < x then PosInf else NegInf)"
| "double_mul (Finite x) NegInf = (if x = 0 then NaN else if 0 < x then NegInf else PosInf)"
| "double_mul PosInf PosInf = PosInf"
| "double_mul NegInf NegInf = PosInf"
| "double_mul PosInf NegInf = NegInf"
| "double_mul NegInf PosInf = NegInf"

fun double_add :: "double \<Rightarrow> double \<Rightarrow> double" where
  "double_add (Finite x) (Finite y) = round_to_double (x + y)"
| "double_add NaN _ = NaN"
| "double_add _ NaN = NaN"
| "double_add PosInf NegInf = NaN"
| "double_add NegInf PosInf = NaN"
| "double_add PosInf _ = PosInf"
| "double_add NegInf _ = NegInf"
| "double_add (Finite x) PosInf = PosInf"
| "double_add (Finite x) NegInf = NegInf"

fun double_sub :: "double \<Rightarrow> double \<Rightarrow> double" where
  "double_sub (Finite x) (Finite y) = round_to_double (x - y)"
| "double_sub NaN _ = NaN"
| "double_sub _ NaN = NaN"
| "double_sub PosInf PosInf = NaN"
| "double_sub NegInf NegInf = NaN"
| "double_sub PosInf _ = PosInf"
| "double_sub NegInf _ = NegInf"
| "double_sub (Finite x) PosInf = NegInf"
| "double_sub (Finite x) NegInf = PosInf"

fun double_sqrt :: "double \<Rightarrow> double" where
  "double_sqrt (Finite x) = (if 0 \<le> x then round_to_double (sqrt x) else NaN)"
| "double_sqrt PosInf = PosInf"
| "double_sqrt NegInf = NaN"
| "double_sqrt NaN = NaN"

text \<open>
  The conversions \<open>(double)\<close> of a \<open>ULONGLONG\<close>, which rounds above \<open>2 ^ 53\<close>, and of a
  \<open>long\<close>, which is exact since a 32-bit integer has fewer than 53 bits.
\<close>

definition double_of_u64 :: "u64 \<Rightarrow> double" where
  "double_of_u64 x = round_to_double (real (unat x))"

definition double_of_long :: "long \<Rightarrow> double" where
  "double_of_long x = Finite (real_of_int (sint x))"

section \<open>BusyWorker: \<open>cpu_stress\<close> and \<open>cpu_stress2\<close> (lines 26 to 41)\<close>

text \<open>
  Each worker is a transition system: a step returns the next state, or \<open>None\<close> when the
  thread function would return or its behaviour is undefined. The state of
  \<open>cpu_stress\<close> is taken at the test of the \<open>for\<close> loop; when the test fails the
  enclosing \<open>while (true)\<close> starts the next pass with \<open>result = 0\<close> and \<open>i = 0\<close>. The
  state of \<open>cpu_stress2\<close> is the counter \<open>num\<close> at the top of the loop body.
\<close>

record cpu_stress_state =
  fp_result :: double
  fp_i :: long

definition cpu_stress_init :: cpu_stress_state where
  "cpu_stress_init = \<lparr>fp_result = Finite 0, fp_i = 0\<rparr>"

definition cpu_stress_step :: "cpu_stress_state \<Rightarrow> cpu_stress_state option" where
  "cpu_stress_step s =
     (if fp_i s <s 100000000
      then Some \<lparr>fp_result = double_add (fp_result s) (double_sqrt (double_of_long (fp_i s))),
                 fp_i = fp_i s + 1\<rparr>
      else Some cpu_stress_init)"

definition cpu_stress2_init :: u64 where
  "cpu_stress2_init = 2"

definition cpu_stress2_step :: "u64 \<Rightarrow> u64 option" where
  "cpu_stress2_step num =
     (case is_prime num of Inl e \<Rightarrow> None | Inr b \<Rightarrow> Some (num + 1))"

fun run_steps :: "('s \<Rightarrow> 's option) \<Rightarrow> nat \<Rightarrow> 's \<Rightarrow> 's option" where
  "run_steps step 0 s = Some s"
| "run_steps step (Suc n) s =
     (case step s of None \<Rightarrow> None | Some s' \<Rightarrow> run_steps step n s')"

section \<open>UsageSampler: \<open>print_memory_usage\<close> and \<open>print_cpu_usage\<close> (lines 43 to 89)\<close>

record PROCESS_MEMORY_COUNTERS =
  PagefileUsage :: u64
  WorkingSetSize :: u64

record FILETIME =
  dwLowDateTime :: u32
  dwHighDateTime :: u32

text \<open>
  \<open>ULARGE_INTEGER\<close> is a union: the code stores \<open>LowPart\<close> and \<open>HighPart\<close> and reads the
  64-bit \<open>QuadPart\<close>.
\<close>

definition QuadPart :: "FILETIME \<Rightarrow> u64" where
  "QuadPart ft = push_bit 32 (ucast (dwHighDateTime ft)) OR ucast (dwLowDateTime ft)"

record system_times =
  idleTime :: FILETIME
  kernelTime :: FILETIME
  userTime :: FILETIME

definition systemTimeDelta :: "system_times \<Rightarrow> system_times \<Rightarrow> u64" where
  "systemTimeDelta t1 t2 =
     (QuadPart (kernelTime t2) + QuadPart (userTime t2))
     - (QuadPart (kernelTime t1) + QuadPart (userTime t1))"

definition idleTimeDelta :: "system_times \<Rightarrow> system_times \<Rightarrow> u64" where
  "idleTimeDelta t1 t2 = QuadPart (idleTime t2) - QuadPart (idleTime t1)"

definition cpuUsage :: "system_times \<Rightarrow> system_times \<Rightarrow> double" where
  "cpuUsage t1 t2 =
     double_sub (Finite 100)
       (double_mul
          (double_div (double_of_u64 (idleTimeDelta t1 t2))
                      (double_of_u64 (systemTimeDelta t1 t2)))
          (Finite 100))"

text \<open>The quotient \<open>... / (1024 * 1024)\<close> printed for both counters.\<close>

definition megabytes :: "u64 \<Rightarrow> u64" where
  "megabytes b = b div (1024 * 1024)"

section \<open>The driver: \<open>main\<close> (lines 93 to 137)\<close>

text \<open>
  \<open>main\<close> is modelled by explicit state passing, in the order of its statements. The call
  of \<open>setlocale\<close> has no effect on what follows and is left out. The console texts are
  Polish sentences; each is a constructor here, with the number
  it prints as argument.
\<close>

datatype message =
    Msg_Reserving | Msg_AllocFailed | Msg_Waiting | Msg_Filled
  | Msg_MemHeader | Msg_VmSize u64 | Msg_VmRSS u64 | Msg_MemFailed
  | Msg_CpuHeader | Msg_CpuUsage double | Msg_PressEnter

datatype thread_body = Run_cpu_stress | Run_cpu_stress2

datatype event =
    Cout message | Cerr message
  | New nat bool | Memset byte nat | Delete
  | ThreadStart thread_body | Detach
  | Sleep nat
  | GetProcessMemoryInfo | GetSystemTimes
  | CinGet

record block =
  block_size :: nat
  block_bytes :: "nat \<Rightarrow> byte"

record thread =
  body :: thread_body
  joinable :: bool

text \<open>
  What the operating system answers during one run: whether \<open>new (nothrow)\<close> returns
  a block, the indeterminate contents of a fresh block, the number of hardware threads,
  the process memory counters (\<open>None\<close> when the query fails) and the two readings of the
  system times.
\<close>

record environment =
  new_succeeds :: bool
  fresh_bytes :: "nat \<Rightarrow> byte"
  hardware_concurrency :: u32
  memory_counters :: "PROCESS_MEMORY_COUNTERS option"
  first_times :: system_times
  second_times :: system_times

text \<open>
  The state of the main thread: the block behind \<open>big_array\<close> (\<open>None\<close> for a null or
  deleted pointer), the vector \<open>threads\<close> and everything done so far, oldest first.
\<close>

record state =
  big_array :: "block option"
  threads :: "thread list"
  events :: "event list"

definition initial_state :: state where
  "initial_state = \<lparr>big_array = None, threads = [], events = []\<rparr>"

definition emit :: "event \<Rightarrow> state \<Rightarrow> state" where
  "emit e s = s\<lparr>events := events s @ [e]\<rparr>"

definition SIZE :: nat where
  "SIZE = 22 * (1024 * 1024 * 1024)"

definition reserve_memory :: "environment \<Rightarrow> state \<Rightarrow> state" where
  "reserve_memory env s =
     (let s = emit (Cout Msg_Reserving) s in
      if new_succeeds env
      then (emit (New SIZE True) s)
             \<lparr>big_array := Some \<lparr>block_size = SIZE, block_bytes = fresh_bytes env\<rparr>\<rparr>
      else (emit (New SIZE False) s)\<lparr>big_array := None\<rparr>)"

definition memset_big_array :: "byte \<Rightarrow> nat \<Rightarrow> state \<Rightarrow> state" where
  "memset_big_array v n s =
     (case big_array s of
        None \<Rightarrow> s
      | Some b \<Rightarrow>
          (emit (Memset v n) s)
            \<lparr>big_array := Some (b\<lparr>block_bytes := (\<lambda>k. if k < n then v else block_bytes b k)\<rparr>)\<rparr>)"

definition read_big_array :: "state \<Rightarrow> nat \<Rightarrow> byte option" where
  "read_big_array s k =
     (case big_array s of
        None \<Rightarrow> None
      | Some b \<Rightarrow> if k < block_size b then Some (block_bytes b k) else None)"

definition push_back_thread :: "thread_body \<Rightarrow> state \<Rightarrow> state" where
  "push_back_thread f s =
     (emit (ThreadStart f) s)\<lparr>threads := threads s @ [\<lparr>body = f, joinable = True\<rparr>]\<rparr>"

function start_threads :: "u32 \<Rightarrow> u32 \<Rightarrow> thread_body \<Rightarrow> state \<Rightarrow> state" where
  "start_threads i num_threads f s =
     (if i < num_threads
      then start_threads (i + 1) num_threads f (push_back_thread f s)
      else s)"
  by pat_completeness auto

termination start_threads
proof (relation "measure (\<lambda>(i, num_threads, f, s). unat num_threads - unat i)")
  show "wf (measure (\<lambda>(i, num_threads, f, s). unat num_threads - unat i))" by simp
next
  fix i num_threads :: u32 and f :: thread_body and s :: state
  assume "i < num_threads"
  then have lt: "unat i < unat num_threads" by (simp add: word_less_nat_alt)
  have "unat num_threads < 2 ^ 32" using unsigned_less [of num_threads, where 'a = nat] by simp
  with lt have "unat (i + 1) = unat i + 1" by (simp add: unat_word_ariths)
  with lt show "((i + 1, num_threads, f, push_back_thread f s), (i, num_threads, f, s))
      \<in> measure (\<lambda>(i, num_threads, f, s). unat num_threads - unat i)"
    by simp
qed

declare start_threads.simps [simp del]

definition start_load :: "environment \<Rightarrow> state \<Rightarrow> state" where
  "start_load env s =
     (let num_threads = hardware_concurrency env;
          s = start_threads 0 num_threads Run_cpu_stress s;
          s = start_threads 0 num_threads Run_cpu_stress2 s
      in s)"

definition hold :: "state \<Rightarrow> state" where
  "hold s = emit (Sleep 10000) (emit (Cout Msg_Waiting) s)"

definition print_memory_usage :: "environment \<Rightarrow> state \<Rightarrow> state" where
  "print_memory_usage env s =
     (let s = emit GetProcessMemoryInfo s in
      case memory_counters env of
        Some pmc \<Rightarrow>
          (let s = emit (Cout (Msg_VmSize (megabytes (PagefileUsage pmc)))) s;
               s = emit (Cout (Msg_VmRSS (megabytes (WorkingSetSize pmc)))) s
           in s)
      | None \<Rightarrow> emit (Cerr Msg_MemFailed) s)"

definition print_cpu_usage :: "environment \<Rightarrow> state \<Rightarrow> state" where
  "print_cpu_usage env s =
     (let s = emit GetSystemTimes s;
          s = emit (Sleep 1000) s;
          s = emit GetSystemTimes s;
          s = emit (Cout (Msg_CpuUsage (cpuUsage (first_times env) (second_times env)))) s
      in s)"

definition measure_usage :: "environment \<Rightarrow> state \<Rightarrow> state" where
  "measure_usage env s =
     (let s = emit (Cout Msg_Filled) s;
          s = emit (Cout Msg_MemHeader) s;
          s = print_memory_usage env s;
          s = emit (Cout Msg_CpuHeader) s;
          s = print_cpu_usage env s
      in s)"

definition detach_threads :: "state \<Rightarrow> state" where
  "detach_threads s =
     s\<lparr>threads := map (\<lambda>t. t\<lparr>joinable := False\<rparr>) (threads s),
       events := events s @ replicate (length (threads s)) Detach\<rparr>"

definition finish :: "state \<Rightarrow> state" where
  "finish s =
     (let s = emit (Cout Msg_PressEnter) s;
          s = emit CinGet s;
          s = (emit Delete s)\<lparr>big_array := None\<rparr>;
          s = detach_threads s
      in s)"

definition main :: "environment \<Rightarrow> state \<times> int" where
  "main env =
     (let s = reserve_memory env initial_state in
      if big_array s = None then (emit (Cerr Msg_AllocFailed) s, 1)
      else
        (let s = memset_big_array 1 SIZE s;
             s = start_load env s;
             s = hold s;
             s = measure_usage env s;
             s = finish s
         in (s, 0)))"

text \<open>
  Names for what the theorems talk about: the events that start a worker thread and the
  events that sample the system, the lines \<open>print_memory_usage\<close> writes, the state
  of \<open>main\<close> after line 106 (memory reserved and filled), and one concrete environment
  on which the theorems are exercised.
\<close>

definition is_thread_start :: "event \<Rightarrow> bool" where
  "is_thread_start e = (case e of ThreadStart f \<Rightarrow> True | _ \<Rightarrow> False)"

definition is_measurement :: "event \<Rightarrow> bool" where
  "is_measurement e = (e = GetProcessMemoryInfo \<or> e = GetSystemTimes)"

definition memory_report :: "environment \<Rightarrow> event list" where
  "memory_report env =
     (case memory_counters env of
        Some pmc \<Rightarrow> [Cout (Msg_VmSize (megabytes (PagefileUsage pmc))),
                     Cout (Msg_VmRSS (megabytes (WorkingSetSize pmc)))]
      | None \<Rightarrow> [Cerr Msg_MemFailed])"

definition filled_state :: "environment \<Rightarrow> state" where
  "filled_state env = memset_big_array 1 SIZE (reserve_memory env initial_state)"

definition example_environment :: "bool \<Rightarrow> environment" where
  "example_environment ok =
     \<lparr>new_succeeds = ok,
      fresh_bytes = (\<lambda>k. 0),
      hardware_concurrency = 2,
      memory_counters = Some \<lparr>PagefileUsage = 2 * 1024 * 1024 * 3, WorkingSetSize = 5000000\<rparr>,
      first_times =
        \<lparr>idleTime = \<lparr>dwLowDateTime = 0, dwHighDateTime = 0\<rparr>,
         kernelTime = \<lparr>dwLowDateTime = 10, dwHighDateTime = 0\<rparr>,
         userTime = \<lparr>dwLowDateTime = 20, dwHighDateTime = 0\<rparr>\<rparr>,
      second_times =
        \<lparr>idleTime = \<lparr>dwLowDateTime = 10, dwHighDateTime = 0\<rparr>,
         kernelTime = \<lparr>dwLowDateTime = 40, dwHighDateTime = 0\<rparr>,
         userTime = \<lparr>dwLowDateTime = 30, dwHighDateTime = 0\<rparr>\<rparr>\<rparr>"

section \<open>Correctness of \<open>is_prime\<close>\<close>

subsection \<open>The loop on primes and on composites\<close>

lemma word_mod_zero_iff: "(num :: u64) mod i = 0 \<longleftrightarrow> unat i dvd unat num"
proof -
  have "num mod i = 0 \<longleftrightarrow> unat (num mod i) = 0" by (simp add: unat_eq_zero)
  also have "\<dots> \<longleftrightarrow> unat num mod unat i = 0" by (simp add: unat_mod_distrib)
  also have "\<dots> \<longleftrightarrow> unat i dvd unat num" by (simp add: dvd_eq_mod_eq_0)
  finally show ?thesis .
qed

lemma unat_u64_less: "unat (w :: u64) < 18446744073709551616"
  using unsigned_less [of w, where 'a = nat] by simp

lemma unat_plus2: "unat (i :: u64) + 2 < 18446744073709551616 \<Longrightarrow> unat (i + 2) = unat i + 2"
  by (simp add: unat_word_ariths)

lemma unat_plus6: "unat (i :: u64) + 6 < 18446744073709551616 \<Longrightarrow> unat (i + 6) = unat i + 6"
  by (simp add: unat_word_ariths)

lemma square_guard_exact:
  assumes "unat (i :: u64) < 4294967296"
  shows "i * i \<le> num \<longleftrightarrow> unat i * unat i \<le> unat num"
proof -
  have "unat i * unat i < 4294967296 * 4294967296"
    using assms by (intro mult_strict_mono) simp_all
  then have "unat i * unat i < 2 ^ LENGTH(64)" by simp
  then have "unat (i * i) = unat i * unat i" by (simp only: unat_mult_lem)
  then show ?thesis by (simp add: word_le_nat_alt)
qed

lemma prime_nat_no_divisor: "prime_nat n \<Longrightarrow> 1 < d \<Longrightarrow> d < n \<Longrightarrow> \<not> d dvd n"
  by (simp add: prime_nat_def)

lemma top_values_composite:
  assumes "prime_nat n" and "n < 18446744073709551616"
  shows "n \<le> 18446744073709551608"
proof (rule ccontr)
  assume "\<not> n \<le> 18446744073709551608"
  with assms(2) consider "n = 18446744073709551609" | "n = 18446744073709551610"
    | "n = 18446744073709551611" | "n = 18446744073709551612" | "n = 18446744073709551613"
    | "n = 18446744073709551614" | "n = 18446744073709551615" by linarith
  then show False
  proof cases
    case 1 then show False using prime_nat_no_divisor [OF assms(1), of 3] by simp
  next
    case 2 then show False using prime_nat_no_divisor [OF assms(1), of 2] by simp
  next
    case 3 then show False using prime_nat_no_divisor [OF assms(1), of 11] by simp
  next
    case 4 then show False using prime_nat_no_divisor [OF assms(1), of 2] by simp
  next
    case 5 then show False using prime_nat_no_divisor [OF assms(1), of 13] by simp
  next
    case 6 then show False using prime_nat_no_divisor [OF assms(1), of 2] by simp
  next
    case 7 then show False using prime_nat_no_divisor [OF assms(1), of 3] by simp
  qed
qed

text \<open>One iteration on a prime input: nothing divides, so only the guard decides.\<close>

lemma loop_step_prime:
  assumes "prime_nat (unat num)" and "5 \<le> unat i" and "unat i + 2 < unat num"
  shows "is_prime_loop i num = (if i * i \<le> num then is_prime_loop (i + 6) num else Inr True)"
proof -
  have n: "unat num < 18446744073709551616" by (rule unat_u64_less)
  have i0: "i \<noteq> 0" using assms(2) by auto
  have u2: "unat (i + 2) = unat i + 2" using assms(3) n by (intro unat_plus2) simp
  have d1: "\<not> unat i dvd unat num"
    using assms by (intro prime_nat_no_divisor) simp_all
  have d2: "\<not> unat (i + 2) dvd unat num"
    unfolding u2 using assms by (intro prime_nat_no_divisor) simp_all
  have i2: "i + 2 \<noteq> 0" using u2 by auto
  show ?thesis
    by (subst is_prime_loop.simps) (simp add: i0 i2 d1 d2 word_mod_zero_iff)
qed

lemma next_candidate_le:
  assumes "a mod 6 = (5::nat)" and "b mod 6 = 5" and "a < b"
  shows "a + 6 \<le> b"
  using assms by presburger

text \<open>
  A prime at or above \<open>(2 ^ 32 - 5)\<^sup>2 = 18446744030759878681\<close>: the guard still holds at
  \<open>i = 2 ^ 32 - 5\<close>, so the loop goes on to candidates whose square wraps around. No
  candidate below the input divides it, hence only the guard can stop the loop, and it
  does so at the latest at \<open>i = 1852311383259529397\<close>: that number is 5 modulo 6 and its
  square is \<open>2 ^ 64 - 7\<close> modulo \<open>2 ^ 64\<close>, above every prime below \<open>2 ^ 64\<close>.
\<close>

lemma loop_prime_large:
  assumes "prime_nat (unat num)" and "18446744030759878681 \<le> unat num"
    and "unat i mod 6 = 5" and "5 \<le> unat i" and "unat i \<le> 1852311383259529397"
  shows "is_prime_loop i num = Inr True"
  using assms
proof (induction i num rule: is_prime_loop.induct)
  case (1 i num)
  note p = \<open>prime_nat (unat num)\<close>
  have n: "unat num \<le> 18446744073709551608"
    by (rule top_values_composite [OF p unat_u64_less])
  have step: "is_prime_loop i num = (if i * i \<le> num then is_prime_loop (i + 6) num else Inr True)"
    using "1.prems" by (intro loop_step_prime) simp_all
  show ?case
  proof (cases "i * i \<le> num")
    case False
    then show ?thesis by (simp add: step)
  next
    case True
    have ne: "unat i \<noteq> 1852311383259529397"
    proof
      assume "unat i = 1852311383259529397"
      then have "i = 1852311383259529397" by (simp add: word_unat_eq_iff)
      then have "i * i = 18446744073709551609" by simp
      with True have "unat (18446744073709551609 :: u64) \<le> unat num"
        by (simp only: word_le_nat_alt)
      with n show False by simp
    qed
    have le: "unat i + 6 \<le> 1852311383259529397"
      using "1.prems" ne by (intro next_candidate_le) simp_all
    then have u6: "unat (i + 6) = unat i + 6" by (intro unat_plus6) simp
    have i0: "i \<noteq> 0" using "1.prems" by auto
    have "unat i + 2 < unat num" using "1.prems" by simp
    then have u2: "unat (i + 2) = unat i + 2" using n by (intro unat_plus2) simp
    have d1: "num mod i \<noteq> 0"
      unfolding word_mod_zero_iff using "1.prems" by (intro prime_nat_no_divisor [OF p]) simp_all
    have d2: "num mod (i + 2) \<noteq> 0"
      unfolding word_mod_zero_iff u2 using "1.prems" by (intro prime_nat_no_divisor [OF p]) simp_all
    have i2: "i + 2 \<noteq> 0" using u2 by auto
    have "is_prime_loop (i + 6) num = Inr True"
      using True i0 d1 i2 d2 "1.prems" le by (intro "1.IH") (simp_all add: u6)
    then show ?thesis using True by (simp add: step)
  qed
qed

text \<open>
  A prime below \<open>(2 ^ 32 - 5)\<^sup>2\<close>: the candidates stay at or below \<open>2 ^ 32 - 5\<close>, their
  squares do not wrap, and the guard fails at the first candidate above the square root.
\<close>

lemma loop_prime_small:
  assumes "prime_nat (unat num)" and "unat num < 18446744030759878681"
    and "unat i mod 6 = 5" and "5 \<le> unat i" and "unat i \<le> 4294967291"
  shows "is_prime_loop i num = Inr True"
  using assms
proof (induction i num rule: is_prime_loop.induct)
  case (1 i num)
  note p = \<open>prime_nat (unat num)\<close>
  show ?case
  proof (cases "i * i \<le> num")
    case False
    then show ?thesis by (subst is_prime_loop.simps) simp
  next
    case True
    have sq: "unat i * unat i \<le> unat num"
      using True "1.prems" by (subst (asm) square_guard_exact) simp_all
    have ne: "unat i \<noteq> 4294967291"
    proof
      assume "unat i = 4294967291"
      with sq "1.prems" show False by simp
    qed
    have le: "unat i + 6 \<le> 4294967291"
      using "1.prems" ne by (intro next_candidate_le) simp_all
    then have u6: "unat (i + 6) = unat i + 6" by (intro unat_plus6) simp
    have "5 * unat i \<le> unat i * unat i" using "1.prems" by simp
    then have lt: "unat i + 2 < unat num" using sq "1.prems" by linarith
    have step: "is_prime_loop i num = (if i * i \<le> num then is_prime_loop (i + 6) num else Inr True)"
      using "1.prems" lt by (intro loop_step_prime) simp_all
    have i0: "i \<noteq> 0" using "1.prems" by auto
    have u2: "unat (i + 2) = unat i + 2" using le by (intro unat_plus2) simp
    have d1: "num mod i \<noteq> 0"
      unfolding word_mod_zero_iff using "1.prems" lt by (intro prime_nat_no_divisor [OF p]) simp_all
    have d2: "num mod (i + 2) \<noteq> 0"
      unfolding word_mod_zero_iff u2 using "1.prems" lt by (intro prime_nat_no_divisor [OF p]) simp_all
    have i2: "i + 2 \<noteq> 0" using u2 by auto
    have "is_prime_loop (i + 6) num = Inr True"
      using True i0 d1 i2 d2 "1.prems" le by (intro "1.IH") (simp_all add: u6)
    then show ?thesis using True by (simp add: step)
  qed
qed

text \<open>
  A composite input that 2 and 3 do not divide: its least divisor \<open>p > 1\<close> is 1 or 5 modulo
  6 and at most the square root, so the loop reaches \<open>i = p\<close> or \<open>i + 2 = p\<close> with the guard
  still true, and no square wraps on the way.
\<close>

lemma least_divisor_exists:
  assumes "1 < n" and "\<not> prime_nat n"
  obtains p where "1 < p" and "p dvd n" and "p * p \<le> n"
    and "\<And>d. 1 < d \<Longrightarrow> d < p \<Longrightarrow> \<not> d dvd n"
proof -
  define p where "p = (LEAST d. 1 < d \<and> d dvd n)"
  from assms have "\<exists>d\<in>{2..<n}. d dvd n" by (simp add: prime_nat_def)
  then obtain d0 where "d0 \<in> {2..<n}" and "d0 dvd n" by blast
  then have d0: "1 < d0" "d0 < n" "d0 dvd n" by simp_all
  then have ex: "1 < d0 \<and> d0 dvd n" by simp
  have pp: "1 < p \<and> p dvd n" unfolding p_def by (rule LeastI [of _ d0]) (rule ex)
  have least: "\<And>d. 1 < d \<Longrightarrow> d dvd n \<Longrightarrow> p \<le> d"
    unfolding p_def by (rule Least_le) simp
  from pp obtain q where q: "n = p * q" by (auto elim: dvdE)
  have "p \<le> d0" using d0 by (intro least) simp_all
  then have "p < n" using d0 by simp
  then have "1 < q" using q pp assms(1) by (cases "q = 0"; cases "q = 1") simp_all
  moreover have "q dvd n" using q by simp
  ultimately have "p \<le> q" by (rule least)
  then have "p * p \<le> n" unfolding q by simp
  moreover have "\<And>d. 1 < d \<Longrightarrow> d < p \<Longrightarrow> \<not> d dvd n" using least by fastforce
  ultimately show ?thesis using pp that by blast
qed

lemma mod6_divisible:
  assumes "\<not> 2 dvd (n::nat)" and "\<not> 3 dvd n" and "p dvd n"
  shows "p mod 6 = 1 \<or> p mod 6 = 5"
proof -
  have "\<not> 2 dvd p" using assms(1,3) dvd_trans by blast
  moreover have "\<not> 3 dvd p" using assms(2,3) dvd_trans by blast
  ultimately show ?thesis by presburger
qed

lemma next_candidate_divisor:
  assumes "p mod 6 = 1 \<or> p mod 6 = 5" and "a mod 6 = (5::nat)" and "a \<le> p"
    and "p \<noteq> a" and "p \<noteq> a + 2"
  shows "a + 6 \<le> p"
proof (rule ccontr)
  assume "\<not> a + 6 \<le> p"
  define k where "k = p - a"
  have p: "p = a + k" using assms(3) by (simp add: k_def)
  have "k < 6" using \<open>\<not> a + 6 \<le> p\<close> by (simp add: k_def)
  moreover have "k \<noteq> 0" "k \<noteq> 2" using assms(4,5) p by simp_all
  ultimately consider "k = 1" | "k = 3" | "k = 4" | "k = 5" by linarith
  then have "(5 + k) mod 6 \<noteq> 1 \<and> (5 + k) mod 6 \<noteq> 5" by cases simp_all
  moreover have "p mod 6 = (5 + k) mod 6"
    unfolding p using assms(2) by (metis mod_add_left_eq)
  ultimately show False using assms(1) by simp
qed

lemma loop_composite:
  assumes "\<not> 2 dvd unat num" and "\<not> 3 dvd unat num"
    and "p dvd unat num" and "p * p \<le> unat num"
    and "unat i mod 6 = 5" and "5 \<le> unat i" and "unat i \<le> p"
  shows "is_prime_loop i num = Inr False"
  using assms
proof (induction i num rule: is_prime_loop.induct)
  case (1 i num)
  have p6: "p mod 6 = 1 \<or> p mod 6 = 5"
    using "1.prems"(1-3) by (rule mod6_divisible)
  have "p * p < 4294967296 * 4294967296"
    using "1.prems"(4) unat_u64_less [of num] by simp
  have pb: "p < 4294967296"
  proof (rule ccontr)
    assume "\<not> p < 4294967296"
    then have "4294967296 * 4294967296 \<le> p * p" by (intro mult_le_mono) simp_all
    with \<open>p * p < 4294967296 * 4294967296\<close> show False by simp
  qed
  then have ib: "unat i < 4294967296" using "1.prems" by simp
  have "unat i * unat i \<le> p * p" using "1.prems" by (intro mult_le_mono) simp_all
  then have guard: "i * i \<le> num"
    using ib "1.prems" by (subst square_guard_exact) simp_all
  have i0: "i \<noteq> 0" using "1.prems" by auto
  have u2: "unat (i + 2) = unat i + 2" using ib by (intro unat_plus2) simp
  have u6: "unat (i + 6) = unat i + 6" using ib by (intro unat_plus6) simp
  have i2: "i + 2 \<noteq> 0" using u2 by auto
  show ?case
  proof (cases "num mod i = 0 \<or> num mod (i + 2) = 0")
    case True
    then show ?thesis using guard i0 i2 by (subst is_prime_loop.simps) auto
  next
    case False
    then have d1: "num mod i \<noteq> 0" and d2: "num mod (i + 2) \<noteq> 0" by simp_all
    have "p \<noteq> unat i" using d1 "1.prems"(3) by (auto simp: word_mod_zero_iff)
    moreover have "p \<noteq> unat i + 2" using d2 "1.prems"(3) by (auto simp: word_mod_zero_iff u2)
    ultimately have "unat i + 6 \<le> p"
      using p6 "1.prems"(5,7) by (intro next_candidate_divisor) simp_all
    then have "is_prime_loop (i + 6) num = Inr False"
      using guard i0 d1 i2 d2 "1.prems" by (intro "1.IH") (simp_all add: u6)
    then show ?thesis using guard i0 i2 d1 d2 by (subst is_prime_loop.simps) simp
  qed
qed

subsection \<open>\<open>is_prime\<close> decides primality\<close>

lemma is_prime_eq_prime_nat: "is_prime num = Inr (prime_nat (unat num))"
proof -
  consider "num \<le> 1" | "num = 2" | "num = 3"
    | "\<not> num \<le> 1" "num \<noteq> 2" "num \<noteq> 3" "num mod 2 = 0 \<or> num mod 3 = 0"
    | "\<not> num \<le> 1" "num \<noteq> 2" "num \<noteq> 3" "num mod 2 \<noteq> 0" "num mod 3 \<noteq> 0"
    by blast
  then show ?thesis
  proof cases
    case 1
    then have "unat num \<le> 1" by (simp add: word_le_nat_alt)
    then have "\<not> prime_nat (unat num)" by (simp add: prime_nat_def)
    then show ?thesis using 1 by (simp add: is_prime_def)
  next
    case 2
    then show ?thesis by (simp add: is_prime_def prime_nat_def word_le_nat_alt)
  next
    case 3
    have "{2..<3} = {2::nat}" by auto
    then show ?thesis using 3 by (simp add: is_prime_def prime_nat_def word_le_nat_alt)
  next
    case 4
    have gt: "1 < unat num" using 4(1) by (simp add: word_le_nat_alt)
    have "unat num \<noteq> 2" "unat num \<noteq> 3" using 4(2,3) by (auto simp: word_unat_eq_iff)
    then have n3: "3 < unat num" using gt by linarith
    from 4(4) have "2 dvd unat num \<or> 3 dvd unat num"
      using word_mod_zero_iff [of num 2] word_mod_zero_iff [of num 3] by simp
    then have "\<not> prime_nat (unat num)"
      using n3 prime_nat_no_divisor [of "unat num" 2] prime_nat_no_divisor [of "unat num" 3] by auto
    then show ?thesis using 4 by (simp add: is_prime_def)
  next
    case 5
    have gt: "1 < unat num" using 5(1) by (simp add: word_le_nat_alt)
    have d2: "\<not> 2 dvd unat num" using 5(4) word_mod_zero_iff [of num 2] by simp
    have d3: "\<not> 3 dvd unat num" using 5(5) word_mod_zero_iff [of num 3] by simp
    have start: "is_prime num = is_prime_loop 5 num" using 5 by (simp add: is_prime_def)
    show ?thesis
    proof (cases "prime_nat (unat num)")
      case True
      have "is_prime_loop 5 num = Inr True"
      proof (cases "unat num < 18446744030759878681")
        case small: True
        show ?thesis using True small by (intro loop_prime_small) simp_all
      next
        case large: False
        show ?thesis using True large by (intro loop_prime_large) simp_all
      qed
      then show ?thesis using True start by simp
    next
      case False
      from gt False obtain p where p: "1 < p" "p dvd unat num" "p * p \<le> unat num"
        by (rule least_divisor_exists)
      have "p \<noteq> 2" "p \<noteq> 3" using p(2) d2 d3 by auto
      moreover have "p \<noteq> 4"
      proof
        assume "p = 4"
        then have "2 dvd p" by simp
        then show False using p(2) d2 dvd_trans by blast
      qed
      ultimately have "5 \<le> p" using p(1) by linarith
      then have "is_prime_loop 5 num = Inr False"
        using d2 d3 p by (intro loop_composite [where p = p]) simp_all
      then show ?thesis using False start by simp
    qed
  qed
qed

lemma trial_division_characterisation:
  assumes "3 < n" and "\<not> 2 dvd n" and "\<not> 3 dvd n"
  shows "prime_nat n \<longleftrightarrow> \<not> has_trial_divisor n"
proof
  assume p: "prime_nat n"
  show "\<not> has_trial_divisor n"
  proof
    assume "has_trial_divisor n"
    then obtain d where d: "5 \<le> d" "d * d \<le> n" "d dvd n"
      by (auto simp: has_trial_divisor_def)
    have "5 * d \<le> d * d" using d(1) by simp
    then have "d < n" using d(1,2) by linarith
    then show False using prime_nat_no_divisor [OF p, of d] d by simp
  qed
next
  assume no: "\<not> has_trial_divisor n"
  show "prime_nat n"
  proof (rule ccontr)
    assume "\<not> prime_nat n"
    with assms(1) obtain p where p: "1 < p" "p dvd n" "p * p \<le> n"
      using least_divisor_exists [of n] by (metis less_trans one_less_numeral_iff semiring_norm(77))
    have "p \<noteq> 2" "p \<noteq> 3" using p(2) assms by auto
    moreover have "p \<noteq> 4"
    proof
      assume "p = 4"
      then have "2 dvd p" by simp
      then show False using p(2) assms(2) dvd_trans by blast
    qed
    ultimately have p5: "5 \<le> p" using p(1) by linarith
    have "p mod 6 = 1 \<or> p mod 6 = 5" using assms(2,3) p(2) by (rule mod6_divisible)
    moreover have "p \<le> n" using p(2) assms(1) by (intro dvd_imp_le) simp_all
    ultimately have "has_trial_divisor n"
      unfolding has_trial_divisor_def using p p5 by (intro bexI [of _ p]) auto
    with no show False by simp
  qed
qed

lemma table_upto_100:
  "\<forall>n\<in>set [0..<101]. is_prime (word_of_nat n) = Inr (word_of_nat n \<in> set prime_table)"
  by code_simp

subsection \<open>The claim about \<open>is_prime\<close>\<close>

lemma word_le_100_cases:
  assumes "(num :: u64) \<le> 100"
  shows "\<exists>n\<in>set [0..<101]. num = word_of_nat n"
proof -
  have "unat num \<le> 100" using assms by (simp add: word_le_nat_alt)
  then have "unat num \<in> set [0..<101]" by simp
  moreover have "num = word_of_nat (unat num)" by simp
  ultimately show ?thesis by blast
qed

lemma prime_table_le_100: "num \<in> set prime_table \<Longrightarrow> num \<le> 100"
  by (auto simp: prime_table_def)

lemma is_prime_table: "num \<le> 100 \<Longrightarrow> is_prime num = Inr (num \<in> set prime_table)"
  using word_le_100_cases [of num] table_upto_100 by blast

text \<open>
  Claim C1. For every unsigned 64-bit \<open>num\<close>, \<open>is_prime num\<close> returns false when
  \<open>num \<le> 1\<close>, true when \<open>num\<close> is 2 or 3, false when \<open>num\<close> is a larger multiple of 2
  or of 3, and otherwise true exactly when no trial divisor 5, 7, 11, 13, ... up to the
  integer square root divides \<open>num\<close>; that is, it returns true if and only if \<open>num\<close> is
  prime, and never divides by zero. In particular it returns true on every prime below 100
  and false on every other number up to 100, 0 and 1 included.
\<close>

theorem is_prime_correct:
  "(num \<le> 1 \<longrightarrow> is_prime num = Inr False)
   \<and> (num = 2 \<or> num = 3 \<longrightarrow> is_prime num = Inr True)
   \<and> (3 < num \<and> (2 dvd unat num \<or> 3 dvd unat num) \<longrightarrow> is_prime num = Inr False)
   \<and> (3 < num \<and> \<not> 2 dvd unat num \<and> \<not> 3 dvd unat num \<longrightarrow>
        is_prime num = Inr (\<not> has_trial_divisor (unat num)))
   \<and> is_prime num = Inr (prime_nat (unat num))
   \<and> (num \<in> set prime_table \<longrightarrow> is_prime num = Inr True)
   \<and> (num \<le> 100 \<and> num \<notin> set prime_table \<longrightarrow> is_prime num = Inr False)"
proof (intro conjI impI)
  assume "num \<le> 1"
  then show "is_prime num = Inr False" by (simp add: is_prime_def)
next
  assume "num = 2 \<or> num = 3"
  then show "is_prime num = Inr True" by (auto simp: is_prime_def word_le_nat_alt)
next
  assume a: "3 < num \<and> (2 dvd unat num \<or> 3 dvd unat num)"
  then have "3 < unat num" by (simp add: word_less_nat_alt)
  then have "\<not> prime_nat (unat num)"
    using a prime_nat_no_divisor [of "unat num" 2] prime_nat_no_divisor [of "unat num" 3] by auto
  then show "is_prime num = Inr False" by (simp add: is_prime_eq_prime_nat)
next
  assume a: "3 < num \<and> \<not> 2 dvd unat num \<and> \<not> 3 dvd unat num"
  then have "3 < unat num" by (simp add: word_less_nat_alt)
  then have "prime_nat (unat num) \<longleftrightarrow> \<not> has_trial_divisor (unat num)"
    using a by (intro trial_division_characterisation) simp_all
  then show "is_prime num = Inr (\<not> has_trial_divisor (unat num))"
    by (simp add: is_prime_eq_prime_nat)
next
  show "is_prime num = Inr (prime_nat (unat num))" by (rule is_prime_eq_prime_nat)
next
  assume "num \<in> set prime_table"
  then show "is_prime num = Inr True"
    using is_prime_table [of num] prime_table_le_100 [of num] by simp
next
  assume "num \<le> 100 \<and> num \<notin> set prime_table"
  then show "is_prime num = Inr False" using is_prime_table [of num] by simp
qed

lemma has_trial_divisor_35: "has_trial_divisor 35"
  unfolding has_trial_divisor_def by (rule bexI [of _ 5]) simp_all

theorem is_prime_correct_witness:
  "is_prime 0 = Inr False \<and> is_prime 3 = Inr True \<and> is_prime 9 = Inr False
   \<and> is_prime 35 = Inr False \<and> has_trial_divisor 35
   \<and> is_prime 97 = Inr True \<and> \<not> has_trial_divisor 97 \<and> prime_nat 97
   \<and> is_prime 91 = Inr False \<and> \<not> prime_nat 91"
proof -
  have h0: "(0::u64) \<le> 1" and h3: "(3::u64) = 2 \<or> (3::u64) = 3"
    and h9: "3 < (9::u64) \<and> (2 dvd unat (9::u64) \<or> 3 dvd unat (9::u64))"
    and h35: "3 < (35::u64) \<and> \<not> 2 dvd unat (35::u64) \<and> \<not> 3 dvd unat (35::u64)"
    and h97: "(97::u64) \<in> set prime_table"
    and h97': "3 < (97::u64) \<and> \<not> 2 dvd unat (97::u64) \<and> \<not> 3 dvd unat (97::u64)"
    and h91: "(91::u64) \<le> 100 \<and> (91::u64) \<notin> set prime_table"
    by (simp_all add: prime_table_def word_less_nat_alt word_le_nat_alt)
  have p0: "is_prime 0 = Inr False" using is_prime_correct [of 0] h0 by blast
  have p3: "is_prime 3 = Inr True" using is_prime_correct [of 3] h3 by blast
  have p9: "is_prime 9 = Inr False" using is_prime_correct [of 9] h9 by blast
  have p35: "is_prime 35 = Inr (\<not> has_trial_divisor (unat (35::u64)))"
    using is_prime_correct [of 35] h35 by blast
  have q35: "has_trial_divisor (unat (35::u64))" using has_trial_divisor_35 by simp
  have p97: "is_prime 97 = Inr True" using is_prime_correct [of 97] h97 by blast
  have q97: "is_prime 97 = Inr (\<not> has_trial_divisor (unat (97::u64)))"
    using is_prime_correct [of 97] h97' by blast
  have r97: "is_prime 97 = Inr (prime_nat (unat (97::u64)))"
    using is_prime_correct [of 97] by blast
  have p91: "is_prime 91 = Inr False" using is_prime_correct [of 91] h91 by blast
  have r91: "is_prime 91 = Inr (prime_nat (unat (91::u64)))"
    using is_prime_correct [of 91] by blast
  from p35 q35 have p35': "is_prime 35 = Inr False" by simp
  from p97 q97 have q97': "\<not> has_trial_divisor 97" by simp
  from p97 r97 have r97': "prime_nat 97" by simp
  from p91 r91 have r91': "\<not> prime_nat 91" by simp
  from p0 p3 p9 p35' q35 p97 q97' r97' p91 r91' show ?thesis by simp
qed

subsection \<open>Termination of the trial-division loop\<close>

lemma is_prime_returns: "\<exists>b. is_prime num = Inr b"
  by (simp add: is_prime_eq_prime_nat)

lemma is_prime_loop_unfold:
  "loop_continues i num \<Longrightarrow> is_prime_loop i num = is_prime_loop (i + 6) num"
  by (subst is_prime_loop.simps) (simp add: loop_continues_def)

lemma loop_iteration_wf: "wf {((i + 6, num), (i, num)) | i num. loop_continues i num}"
  (is "wf ?R")
  unfolding wf_def
proof (intro allI impI)
  fix P :: "u64 \<times> u64 \<Rightarrow> bool" and x
  assume step: "\<forall>x. (\<forall>y. (y, x) \<in> ?R \<longrightarrow> P y) \<longrightarrow> P x"
  have "P (i, num)" for i num
  proof (induction i num rule: is_prime_loop.induct)
    case (1 i num)
    have "\<forall>y. (y, (i, num)) \<in> ?R \<longrightarrow> P y"
    proof (intro allI impI)
      fix y assume "(y, (i, num)) \<in> ?R"
      then have y: "y = (i + 6, num)" and c: "loop_continues i num" by auto
      from c show "P y" unfolding y by (intro "1.IH") (simp_all add: loop_continues_def)
    qed
    with step show ?case by blast
  qed
  then show "P x" by (cases x) simp
qed

text \<open>
  Claim C10. The trial-division loop of \<open>is_prime\<close> terminates for every unsigned 64-bit
  input: the relation between one iteration and the next is well-founded, and \<open>is_prime\<close>
  returns a Boolean (it never divides by zero). This holds although the guard \<open>i * i <= num\<close>
  wraps around from \<open>i = 2 ^ 32\<close> on: \<open>(2 ^ 32 + 1) * (2 ^ 32 + 1)\<close> is \<open>2 ^ 33 + 1\<close> in 64 bits,
  so for the prime \<open>2 ^ 64 - 59\<close> the loop takes another iteration at \<open>i = 2 ^ 32 + 1\<close>, whose
  true square exceeds the input.
\<close>

theorem is_prime_loop_terminates:
  "wf {((i + 6, num), (i, num)) | i num. loop_continues i num}
   \<and> (\<exists>b. is_prime num = Inr b)
   \<and> (4294967297 :: u64) * 4294967297 = 8589934593
   \<and> loop_continues 4294967297 18446744073709551557
   \<and> unat (18446744073709551557 :: u64) < unat (4294967297 :: u64) * unat (4294967297 :: u64)"
proof (intro conjI)
  show "wf {((i + 6, num), (i, num)) | i num. loop_continues i num}"
    by (rule loop_iteration_wf)
  show "\<exists>b. is_prime num = Inr b" by (rule is_prime_returns)
  show "(4294967297 :: u64) * 4294967297 = 8589934593" by simp
  show "loop_continues 4294967297 18446744073709551557"
    by (simp add: loop_continues_def word_le_nat_alt word_mod_zero_iff)
  show "unat (18446744073709551557 :: u64) < unat (4294967297 :: u64) * unat (4294967297 :: u64)"
    by simp
qed

section \<open>The workers run forever\<close>

lemma cpu_stress2_step_eq: "cpu_stress2_step num = Some (num + 1)"
  by (simp add: cpu_stress2_step_def is_prime_eq_prime_nat)

lemma cpu_stress_step_defined: "cpu_stress_step s \<noteq> None"
  by (simp add: cpu_stress_step_def)

lemma run_steps_defined:
  assumes "\<And>s. step s \<noteq> None"
  shows "run_steps step n s \<noteq> None"
proof (induction n arbitrary: s)
  case 0
  show ?case by simp
next
  case (Suc n)
  from assms [of s] obtain s' where "step s = Some s'" by auto
  with Suc show ?case by simp
qed

lemma run_steps_add:
  "run_steps step (a + b) s =
     (case run_steps step a s of None \<Rightarrow> None | Some s' \<Rightarrow> run_steps step b s')"
  by (induction a arbitrary: s) (auto split: option.splits)

lemma run_cpu_stress2: "run_steps cpu_stress2_step n num = Some (num + word_of_nat n)"
  by (induction n arbitrary: num) (simp_all add: cpu_stress2_step_eq add.assoc add.commute)

lemma sint_long_of_nat:
  assumes "n < 2147483648"
  shows "sint (word_of_nat n :: long) = int n"
proof -
  have "signed_take_bit 31 (int n) = int n"
    using assms by (intro signed_take_bit_int_eq_self) simp_all
  then show ?thesis by (simp add: signed_of_nat)
qed

lemma long_counter_less:
  assumes "n \<le> 100000000"
  shows "(word_of_nat n :: long) <s 100000000 \<longleftrightarrow> n < 100000000"
proof -
  have "sint (word_of_nat n :: long) = int n" using assms by (intro sint_long_of_nat) simp
  then show ?thesis by (simp add: word_sless_alt)
qed

lemma cpu_stress_pass:
  assumes "j + k \<le> 100000000"
  shows "\<exists>r'. run_steps cpu_stress_step k \<lparr>fp_result = r, fp_i = word_of_nat j\<rparr>
           = Some \<lparr>fp_result = r', fp_i = word_of_nat (j + k)\<rparr>"
  using assms
proof (induction k arbitrary: r j)
  case 0
  show ?case by simp
next
  case (Suc k)
  then have "j < 100000000" by simp
  then have lt: "(word_of_nat j :: long) <s 100000000" by (subst long_counter_less) simp_all
  define r1 where "r1 = double_add r (double_sqrt (double_of_long (word_of_nat j)))"
  have step: "cpu_stress_step \<lparr>fp_result = r, fp_i = word_of_nat j\<rparr>
      = Some \<lparr>fp_result = r1, fp_i = word_of_nat (Suc j)\<rparr>"
    using lt by (simp add: cpu_stress_step_def r1_def)
  from Suc.prems have "Suc j + k \<le> 100000000" by simp
  from Suc.IH [OF this, of r1] obtain r' where
    "run_steps cpu_stress_step k \<lparr>fp_result = r1, fp_i = word_of_nat (Suc j)\<rparr>
       = Some \<lparr>fp_result = r', fp_i = word_of_nat (Suc j + k)\<rparr>" by blast
  with step show ?case by simp
qed

lemma cpu_stress_restart:
  "cpu_stress_step \<lparr>fp_result = r, fp_i = word_of_nat 100000000\<rparr> = Some cpu_stress_init"
  using long_counter_less [of 100000000] by (simp add: cpu_stress_step_def)

text \<open>
  Claim C9. Neither worker terminates on its own: every state of \<open>cpu_stress\<close> and of
  \<open>cpu_stress2\<close> has a next step, so a run of any number of steps from the initial state
  is defined. \<open>cpu_stress\<close> accumulates \<open>sqrt(i)\<close> for \<open>i\<close> from 0 up to 100,000,000
  iterations and is back in its initial state one step later; \<open>cpu_stress2\<close> probes an
  ascending counter that starts at 2.
\<close>

theorem workers_never_terminate:
  "cpu_stress_step s \<noteq> None
   \<and> cpu_stress2_step num = Some (num + 1)
   \<and> run_steps cpu_stress_step n cpu_stress_init \<noteq> None
   \<and> run_steps cpu_stress2_step n cpu_stress2_init = Some (2 + word_of_nat n)
   \<and> (k \<le> 100000000 \<longrightarrow>
        (\<exists>r. run_steps cpu_stress_step k cpu_stress_init
               = Some \<lparr>fp_result = r, fp_i = word_of_nat k\<rparr>))
   \<and> run_steps cpu_stress_step 100000001 cpu_stress_init = Some cpu_stress_init"
proof (intro conjI impI)
  show "cpu_stress_step s \<noteq> None" by (rule cpu_stress_step_defined)
  show "cpu_stress2_step num = Some (num + 1)" by (rule cpu_stress2_step_eq)
  show "run_steps cpu_stress_step n cpu_stress_init \<noteq> None"
    by (rule run_steps_defined) (rule cpu_stress_step_defined)
  show "run_steps cpu_stress2_step n cpu_stress2_init = Some (2 + word_of_nat n)"
    by (simp add: run_cpu_stress2 cpu_stress2_init_def)
  show "\<exists>r. run_steps cpu_stress_step k cpu_stress_init
               = Some \<lparr>fp_result = r, fp_i = word_of_nat k\<rparr>" if "k \<le> 100000000"
    using cpu_stress_pass [of 0 k "Finite 0"] that by (simp add: cpu_stress_init_def)
  from cpu_stress_pass [of 0 100000000 "Finite 0"] obtain r where
    "run_steps cpu_stress_step 100000000 cpu_stress_init
       = Some \<lparr>fp_result = r, fp_i = word_of_nat 100000000\<rparr>"
    by (auto simp: cpu_stress_init_def)
  moreover have "run_steps cpu_stress_step 1 \<lparr>fp_result = r, fp_i = word_of_nat 100000000\<rparr>
      = Some cpu_stress_init"
    using cpu_stress_restart [of r] by simp
  ultimately show "run_steps cpu_stress_step 100000001 cpu_stress_init = Some cpu_stress_init"
    using run_steps_add [of cpu_stress_step 100000000 1 cpu_stress_init] by simp
qed

theorem workers_never_terminate_witness:
  "(2::nat) \<le> 100000000
   \<and> (\<exists>r. run_steps cpu_stress_step 2 cpu_stress_init = Some \<lparr>fp_result = r, fp_i = 2\<rparr>)"
  using workers_never_terminate [where k = 2] by simp

section \<open>What each part of \<open>main\<close> does to the state\<close>

lemma emit_simps:
  "events (emit e s) = events s @ [e]"
  "threads (emit e s) = threads s"
  "big_array (emit e s) = big_array s"
  by (simp_all add: emit_def)

lemma start_threads_eq:
  "threads (start_threads i n f s)
     = threads s @ replicate (unat n - unat i) \<lparr>body = f, joinable = True\<rparr>
   \<and> events (start_threads i n f s) = events s @ replicate (unat n - unat i) (ThreadStart f)
   \<and> big_array (start_threads i n f s) = big_array s"
proof (induction i n f s rule: start_threads.induct)
  case (1 i n f s)
  show ?case
  proof (cases "i < n")
    case False
    then have "unat n - unat i = 0" by (simp add: word_less_nat_alt)
    with False show ?thesis by (subst (1 2 3) start_threads.simps) simp
  next
    case True
    then have lt: "unat i < unat n" by (simp add: word_less_nat_alt)
    have "unat n < 2 ^ 32" using unsigned_less [of n, where 'a = nat] by simp
    with lt have "unat (i + 1) = unat i + 1" by (simp add: unat_word_ariths)
    with lt have m: "unat n - unat i = Suc (unat n - unat (i + 1))" by simp
    have unfold: "start_threads i n f s = start_threads (i + 1) n f (push_back_thread f s)"
      using True by (subst start_threads.simps) simp
    show ?thesis
      unfolding unfold m using "1.IH" [OF True]
      by (simp add: push_back_thread_def emit_simps replicate_append_same)
  qed
qed

lemma start_load_simps:
  "threads (start_load env s)
     = threads s @ replicate (unat (hardware_concurrency env)) \<lparr>body = Run_cpu_stress, joinable = True\<rparr>
       @ replicate (unat (hardware_concurrency env)) \<lparr>body = Run_cpu_stress2, joinable = True\<rparr>"
  "events (start_load env s)
     = events s @ replicate (unat (hardware_concurrency env)) (ThreadStart Run_cpu_stress)
       @ replicate (unat (hardware_concurrency env)) (ThreadStart Run_cpu_stress2)"
  "big_array (start_load env s) = big_array s"
  by (simp_all add: start_load_def Let_def start_threads_eq)

lemma hold_simps:
  "threads (hold s) = threads s"
  "events (hold s) = events s @ [Cout Msg_Waiting, Sleep 10000]"
  "big_array (hold s) = big_array s"
  by (simp_all add: hold_def emit_simps)

lemma print_memory_usage_simps:
  "threads (print_memory_usage env s) = threads s"
  "events (print_memory_usage env s) = events s @ GetProcessMemoryInfo # memory_report env"
  "big_array (print_memory_usage env s) = big_array s"
  by (simp_all add: print_memory_usage_def Let_def memory_report_def emit_simps split: option.splits)

lemma print_cpu_usage_simps:
  "threads (print_cpu_usage env s) = threads s"
  "events (print_cpu_usage env s) = events s @ [GetSystemTimes, Sleep 1000, GetSystemTimes,
      Cout (Msg_CpuUsage (cpuUsage (first_times env) (second_times env)))]"
  "big_array (print_cpu_usage env s) = big_array s"
  by (simp_all add: print_cpu_usage_def Let_def emit_simps)

lemma measure_usage_simps:
  "threads (measure_usage env s) = threads s"
  "events (measure_usage env s) = events s @ [Cout Msg_Filled, Cout Msg_MemHeader]
      @ GetProcessMemoryInfo # memory_report env
      @ [Cout Msg_CpuHeader, GetSystemTimes, Sleep 1000, GetSystemTimes,
         Cout (Msg_CpuUsage (cpuUsage (first_times env) (second_times env)))]"
  "big_array (measure_usage env s) = big_array s"
  by (simp_all add: measure_usage_def Let_def emit_simps print_memory_usage_simps print_cpu_usage_simps)

lemma finish_simps:
  "threads (finish s) = map (\<lambda>t. t\<lparr>joinable := False\<rparr>) (threads s)"
  "events (finish s) = events s @ [Cout Msg_PressEnter, CinGet, Delete]
      @ replicate (length (threads s)) Detach"
  "big_array (finish s) = None"
  by (simp_all add: finish_def Let_def detach_threads_def emit_simps)

lemma reserve_memory_simps:
  "threads (reserve_memory env s) = threads s"
  "events (reserve_memory env s) = events s @ [Cout Msg_Reserving, New SIZE (new_succeeds env)]"
  "big_array (reserve_memory env s) =
     (if new_succeeds env then Some \<lparr>block_size = SIZE, block_bytes = fresh_bytes env\<rparr> else None)"
  by (simp_all add: reserve_memory_def Let_def emit_simps)

lemma memset_big_array_simps:
  "threads (memset_big_array v n s) = threads s"
  "big_array s = Some b \<Longrightarrow> events (memset_big_array v n s) = events s @ [Memset v n]"
  "big_array s = Some b \<Longrightarrow> big_array (memset_big_array v n s)
     = Some (b\<lparr>block_bytes := (\<lambda>k. if k < n then v else block_bytes b k)\<rparr>)"
  by (simp_all add: memset_big_array_def emit_simps split: option.splits)

lemma main_failure:
  assumes "\<not> new_succeeds env"
  shows "snd (main env) = 1" and "threads (fst (main env)) = []"
    and "events (fst (main env)) = [Cout Msg_Reserving, New SIZE False, Cerr Msg_AllocFailed]"
  using assms
  by (simp_all add: main_def Let_def reserve_memory_simps emit_simps initial_state_def)

lemma main_success:
  assumes "new_succeeds env"
  shows "main env = (finish (measure_usage env (hold (start_load env (filled_state env)))), 0)"
  using assms by (simp add: main_def Let_def reserve_memory_simps filled_state_def)

lemma filled_state_simps:
  assumes "new_succeeds env"
  shows "threads (filled_state env) = []"
    and "events (filled_state env) = [Cout Msg_Reserving, New SIZE True, Memset 1 SIZE]"
    and "big_array (filled_state env)
      = Some \<lparr>block_size = SIZE, block_bytes = (\<lambda>k. if k < SIZE then 1 else fresh_bytes env k)\<rparr>"
proof -
  have b: "big_array (reserve_memory env initial_state)
      = Some \<lparr>block_size = SIZE, block_bytes = fresh_bytes env\<rparr>"
    using assms by (simp add: reserve_memory_simps)
  show "threads (filled_state env) = []"
    by (simp add: filled_state_def memset_big_array_simps reserve_memory_simps initial_state_def)
  have "events (filled_state env) = events (reserve_memory env initial_state) @ [Memset 1 SIZE]"
    unfolding filled_state_def by (rule memset_big_array_simps(2) [OF b])
  then show "events (filled_state env) = [Cout Msg_Reserving, New SIZE True, Memset 1 SIZE]"
    using assms by (simp add: reserve_memory_simps initial_state_def)
  show "big_array (filled_state env)
      = Some \<lparr>block_size = SIZE, block_bytes = (\<lambda>k. if k < SIZE then 1 else fresh_bytes env k)\<rparr>"
    by (simp add: filled_state_def memset_big_array_simps(3) [OF b] fun_eq_iff)
qed


lemma main_success_simps:
  assumes "new_succeeds env"
  shows "snd (main env) = 0"
    and "threads (fst (main env))
      = replicate (unat (hardware_concurrency env)) \<lparr>body = Run_cpu_stress, joinable = False\<rparr>
        @ replicate (unat (hardware_concurrency env)) \<lparr>body = Run_cpu_stress2, joinable = False\<rparr>"
    and "events (fst (main env))
      = ([Cout Msg_Reserving, New SIZE True, Memset 1 SIZE]
          @ replicate (unat (hardware_concurrency env)) (ThreadStart Run_cpu_stress)
          @ replicate (unat (hardware_concurrency env)) (ThreadStart Run_cpu_stress2)
          @ [Cout Msg_Waiting])
        @ Sleep 10000
        # ([Cout Msg_Filled, Cout Msg_MemHeader] @ GetProcessMemoryInfo # memory_report env
          @ [Cout Msg_CpuHeader, GetSystemTimes, Sleep 1000, GetSystemTimes,
             Cout (Msg_CpuUsage (cpuUsage (first_times env) (second_times env))),
             Cout Msg_PressEnter, CinGet, Delete]
          @ replicate (2 * unat (hardware_concurrency env)) Detach)"
  using assms
  by (simp_all add: main_success finish_simps measure_usage_simps hold_simps start_load_simps
      filled_state_simps mult_2)

lemma hold_between:
  assumes tr: "tr = pre @ x # post"
    and pre: "\<forall>e\<in>set pre. \<not> Q e" and post: "\<forall>e\<in>set post. \<not> P e"
    and x: "\<not> P x" "\<not> Q x"
  shows "\<exists>h<length tr. tr ! h = x
           \<and> (\<forall>j<length tr. P (tr ! j) \<longrightarrow> j < h)
           \<and> (\<forall>k<length tr. Q (tr ! k) \<longrightarrow> h < k)"
proof (intro exI [of _ "length pre"] conjI allI impI)
  show "length pre < length tr" by (simp add: tr)
  show "tr ! length pre = x" by (simp add: tr)
next
  fix j assume j: "j < length tr" and p: "P (tr ! j)"
  show "j < length pre"
  proof (rule ccontr)
    assume "\<not> j < length pre"
    then consider "j = length pre" | "length pre < j" by linarith
    then show False
    proof cases
      case 1
      with p x(1) show False by (simp add: tr)
    next
      case 2
      then have "tr ! j = post ! (j - length pre - 1)"
        by (simp add: tr nth_append nth_Cons')
      moreover have "j - length pre - 1 < length post" using j 2 by (simp add: tr)
      ultimately have "tr ! j \<in> set post" by simp
      with post p show False by blast
    qed
  qed
next
  fix k assume k: "k < length tr" and q: "Q (tr ! k)"
  show "length pre < k"
  proof (rule ccontr)
    assume "\<not> length pre < k"
    then consider "k = length pre" | "k < length pre" by linarith
    then show False
    proof cases
      case 1
      with q x(2) show False by (simp add: tr)
    next
      case 2
      then have "tr ! k = pre ! k" by (simp add: tr nth_append)
      with 2 have "tr ! k \<in> set pre" by simp
      with pre q show False by blast
    qed
  qed
qed

lemma memory_report_plain:
  "e \<in> set (memory_report env) \<Longrightarrow> \<not> is_thread_start e \<and> \<not> is_measurement e"
  by (auto simp: memory_report_def is_thread_start_def is_measurement_def split: option.splits)

section \<open>Rounding to the nearest double\<close>

subsection \<open>The binary exponent and rounding to an integer\<close>

lemma bitlen_positive: "0 < n \<Longrightarrow> 1 \<le> bitlen n"
  using bitlen_nonneg [of n] bitlen_eq_zero_iff [of n] by linarith

lemma pow2_le_real: "2 ^ k \<le> (n::int) \<Longrightarrow> (2::real) ^ k \<le> real_of_int n"
  using of_int_le_iff [of "2 ^ k" n, where 'a = real] by simp

lemma succ_le_pow2_real: "(n::int) < 2 ^ k \<Longrightarrow> real_of_int n + 1 \<le> 2 ^ k"
  using of_int_le_iff [of "n + 1" "2 ^ k", where 'a = real] by simp

lemma binary_exponent_bounds:
  assumes "0 < x"
  shows "2 powi (binary_exponent x) \<le> x" and "x < 2 powi (binary_exponent x + 1)"
proof -
  have "2 powi (binary_exponent x) \<le> x \<and> x < 2 powi (binary_exponent x + 1)"
  proof (cases "1 \<le> x")
    case True
    define n where "n = \<lfloor>x\<rfloor>"
    have n1: "1 \<le> n" using True by (simp add: n_def le_floor_iff)
    then have b1: "1 \<le> bitlen n" by (intro bitlen_positive) simp
    from bitlen_bounds [of n] n1
    have lo: "2 ^ nat (bitlen n - 1) \<le> n" and hi: "n < 2 ^ nat (bitlen n)" by simp_all
    have e: "binary_exponent x = bitlen n - 1" using True by (simp add: binary_exponent_def n_def)
    have p1: "(2::real) powi (bitlen n - 1) = 2 ^ nat (bitlen n - 1)"
      using b1 by (simp add: power_int_nonneg_exp)
    have p2: "(2::real) powi (bitlen n - 1 + 1) = 2 ^ nat (bitlen n)"
      using b1 by (simp add: power_int_nonneg_exp)
    have "real_of_int n \<le> x" by (simp add: n_def)
    with pow2_le_real [OF lo] have l: "2 ^ nat (bitlen n - 1) \<le> x" by linarith
    have "x < real_of_int n + 1" unfolding n_def by linarith
    with succ_le_pow2_real [OF hi] have h: "x < 2 ^ nat (bitlen n)" by linarith
    show ?thesis unfolding e p1 p2 using l h by simp
  next
    case False
    then have x1: "x < 1" by simp
    define y where "y = 1 / x"
    have y1: "1 < y" using assms x1 by (simp add: y_def)
    define m where "m = \<lceil>y\<rceil> - 1"
    have m1: "1 \<le> m" using y1 by (simp add: m_def less_ceiling_iff)
    then have b1: "1 \<le> bitlen m" by (intro bitlen_positive) simp
    from bitlen_bounds [of m] m1
    have lo: "2 ^ nat (bitlen m - 1) \<le> m" and hi: "m < 2 ^ nat (bitlen m)" by simp_all
    have e: "binary_exponent x = - bitlen m"
      using False by (simp add: binary_exponent_def m_def y_def)
    have my: "real_of_int m < y" unfolding m_def using ceiling_correct [of y] by simp
    have ym: "y \<le> real_of_int m + 1" unfolding m_def by simp
    with succ_le_pow2_real [OF hi] have yh: "y \<le> 2 ^ nat (bitlen m)" by linarith
    from pow2_le_real [OF lo] my have yl: "2 ^ nat (bitlen m - 1) < y" by linarith
    have p1: "(2::real) powi (- bitlen m) = 1 / 2 ^ nat (bitlen m)"
      using b1 by (simp add: power_int_minus_divide power_int_nonneg_exp)
    have "- bitlen m + 1 = - (bitlen m - 1)" by simp
    then have p2: "(2::real) powi (- bitlen m + 1) = 1 / 2 ^ nat (bitlen m - 1)"
      using b1 by (simp only: power_int_minus_divide) (simp add: power_int_nonneg_exp)
    have l: "1 / 2 ^ nat (bitlen m) \<le> x"
      using yh assms by (simp add: y_def field_simps)
    have h: "x < 1 / 2 ^ nat (bitlen m - 1)"
      using yl assms by (simp add: y_def field_simps)
    show ?thesis unfolding e p1 p2 using l h by simp
  qed
  then show "2 powi (binary_exponent x) \<le> x" and "x < 2 powi (binary_exponent x + 1)"
    by simp_all
qed

lemma binary_exponent_eqI:
  assumes "2 powi e \<le> x" and "x < 2 powi (e + 1)"
  shows "binary_exponent x = e"
proof -
  have "0 < (2::real) powi e" by simp
  with assms(1) have pos: "0 < x" by linarith
  note b = binary_exponent_bounds [OF pos]
  have "\<not> binary_exponent x < e"
  proof
    assume "binary_exponent x < e"
    then have "binary_exponent x + 1 \<le> e" by simp
    then have "(2::real) powi (binary_exponent x + 1) \<le> 2 powi e"
      by (intro power_int_increasing) simp_all
    with b(2) assms(1) show False by linarith
  qed
  moreover have "\<not> e < binary_exponent x"
  proof
    assume "e < binary_exponent x"
    then have "e + 1 \<le> binary_exponent x" by simp
    then have "(2::real) powi (e + 1) \<le> 2 powi (binary_exponent x)"
      by (intro power_int_increasing) simp_all
    with b(1) assms(2) show False by linarith
  qed
  ultimately show ?thesis by linarith
qed

lemma round_half_even_of_int: "round_half_even (of_int n) = n"
  by (simp add: round_half_even_def)

lemma round_half_even_ge: "of_int n \<le> x \<Longrightarrow> n \<le> round_half_even x"
proof -
  assume "of_int n \<le> x"
  then have "n \<le> \<lfloor>x\<rfloor>" by (simp add: le_floor_iff)
  then show ?thesis by (simp add: round_half_even_def Let_def)
qed

lemma round_half_even_le: "x \<le> of_int n \<Longrightarrow> round_half_even x \<le> n"
proof -
  assume le: "x \<le> of_int n"
  have "of_int \<lfloor>x\<rfloor> \<le> x" by simp
  with le have "real_of_int \<lfloor>x\<rfloor> \<le> of_int n" by linarith
  then have f: "\<lfloor>x\<rfloor> \<le> n" by (simp only: of_int_le_iff)
  show ?thesis
  proof (cases "x = of_int \<lfloor>x\<rfloor>")
    case True
    then have "round_half_even x = \<lfloor>x\<rfloor>"
      using round_half_even_of_int [of "\<lfloor>x\<rfloor>"] by simp
    with f show ?thesis by simp
  next
    case False
    have "\<lfloor>x\<rfloor> \<noteq> n"
    proof
      assume eq: "\<lfloor>x\<rfloor> = n"
      have "of_int \<lfloor>x\<rfloor> \<le> x" by simp
      with le eq have "x = of_int \<lfloor>x\<rfloor>" by simp
      with False show False by simp
    qed
    with f have "\<lfloor>x\<rfloor> + 1 \<le> n" by simp
    then show ?thesis by (simp add: round_half_even_def Let_def)
  qed
qed

lemma round_half_even_error: "\<bar>of_int (round_half_even x) - x\<bar> \<le> 1 / 2"
proof -
  have "of_int \<lfloor>x\<rfloor> \<le> x" and "x < of_int \<lfloor>x\<rfloor> + 1" by linarith+
  then show ?thesis by (auto simp: round_half_even_def Let_def)
qed

subsection \<open>Bounds on the rounded value\<close>

text \<open>
  Rounding does not cross a power of two, so a bounded real rounds to a bounded double and
  nothing in the computations below overflows; and the error of one rounding is at most
  half the spacing of the doubles at that magnitude.
\<close>

lemma ulp_pos: "0 < ulp x"
  by (simp add: ulp_def)

lemma binary_exponent_le:
  assumes "0 < x" and "x \<le> 2 powi k"
  shows "binary_exponent x \<le> k"
proof (rule ccontr)
  assume "\<not> binary_exponent x \<le> k"
  then have "k + 1 \<le> binary_exponent x" by simp
  then have "(2::real) powi (k + 1) \<le> 2 powi (binary_exponent x)"
    by (intro power_int_increasing) simp_all
  moreover have "(2::real) powi k < 2 powi (k + 1)"
    by (intro power_int_strict_increasing) simp_all
  ultimately show False using binary_exponent_bounds(1) [OF assms(1)] assms(2) by linarith
qed

lemma binary_exponent_ge:
  assumes "2 powi j \<le> x"
  shows "j \<le> binary_exponent x"
proof (rule ccontr)
  have "0 < (2::real) powi j" by simp
  with assms have pos: "0 < x" by linarith
  assume "\<not> j \<le> binary_exponent x"
  then have "binary_exponent x + 1 \<le> j" by simp
  then have "(2::real) powi (binary_exponent x + 1) \<le> 2 powi j"
    by (intro power_int_increasing) simp_all
  then show False using binary_exponent_bounds(2) [OF pos] assms by linarith
qed

lemma round_real_zero: "round_real 0 = 0"
  by (simp add: round_real_def)

lemma round_real_abs_le:
  assumes "\<bar>x\<bar> \<le> 2 ^ k"
  shows "\<bar>round_real x\<bar> \<le> 2 ^ k"
proof (cases "x = 0")
  case True
  then show ?thesis by (simp add: round_real_zero)
next
  case False
  define e where "e = max (binary_exponent \<bar>x\<bar>) (- 1022)"
  have u: "ulp x = 2 powi (e - 52)" by (simp add: ulp_def e_def)
  have "\<bar>x\<bar> \<le> 2 powi (int k)" using assms by simp
  then have "binary_exponent \<bar>x\<bar> \<le> int k" using False by (intro binary_exponent_le) simp_all
  then have ek: "e \<le> int k" by (simp add: e_def)
  define j where "j = nat (int k - e + 52)"
  have "(2::real) powi (int k) = 2 powi (int k - e + 52) * 2 powi (e - 52)"
    by (subst power_int_add [symmetric]) simp_all
  also have "(2::real) powi (int k - e + 52) = 2 ^ j"
    using ek by (simp add: j_def power_int_nonneg_exp)
  finally have pk: "(2::real) ^ k = 2 ^ j * ulp x" by (simp add: u)
  have up: "0 < ulp x" by (rule ulp_pos)
  from assms have "x \<le> 2 ^ j * ulp x" and "- (2 ^ j * ulp x) \<le> x" unfolding pk by linarith+
  then have "x / ulp x \<le> 2 ^ j" and "- (2 ^ j) \<le> x / ulp x"
    using up by (simp_all add: field_simps)
  then have "x / ulp x \<le> real_of_int (2 ^ j)" and "real_of_int (- (2 ^ j)) \<le> x / ulp x"
    by simp_all
  then have "round_half_even (x / ulp x) \<le> 2 ^ j" and "- (2 ^ j) \<le> round_half_even (x / ulp x)"
    using round_half_even_le [of "x / ulp x" "2 ^ j"] round_half_even_ge [of "- (2 ^ j)" "x / ulp x"]
    by blast+
  then have "\<bar>round_half_even (x / ulp x)\<bar> \<le> 2 ^ j" by linarith
  then have "real_of_int \<bar>round_half_even (x / ulp x)\<bar> \<le> real_of_int (2 ^ j)"
    by (simp only: of_int_le_iff)
  then have "\<bar>real_of_int (round_half_even (x / ulp x))\<bar> \<le> 2 ^ j" by simp
  then have "\<bar>real_of_int (round_half_even (x / ulp x))\<bar> * ulp x \<le> 2 ^ j * ulp x"
    using up by (intro mult_right_mono) simp_all
  then show ?thesis using False up by (simp add: round_real_def abs_mult pk)
qed

lemma round_real_nonneg:
  assumes "0 \<le> x"
  shows "0 \<le> round_real x"
proof (cases "x = 0")
  case True
  then show ?thesis by (simp add: round_real_zero)
next
  case False
  have up: "0 < ulp x" by (rule ulp_pos)
  with assms have "real_of_int 0 \<le> x / ulp x" by simp
  then have "0 \<le> round_half_even (x / ulp x)" by (rule round_half_even_ge)
  then show ?thesis using False up by (simp add: round_real_def)
qed

lemma round_real_ge_pow:
  assumes "- 1022 \<le> j" and "2 powi j \<le> x"
  shows "2 powi j \<le> round_real x"
proof -
  have "0 < (2::real) powi j" by simp
  with assms(2) have pos: "0 < x" by linarith
  define b where "b = binary_exponent x"
  have jb: "j \<le> b" unfolding b_def using assms(2) by (rule binary_exponent_ge)
  then have "max b (- 1022) = b" using assms(1) by simp
  moreover have "\<bar>x\<bar> = x" using pos by simp
  ultimately have u: "ulp x = 2 powi (b - 52)" by (simp add: ulp_def b_def)
  have up: "0 < ulp x" by (rule ulp_pos)
  have "(2::real) powi b = 2 powi 52 * 2 powi (b - 52)"
    by (subst power_int_add [symmetric]) simp_all
  then have pb: "(2::real) powi b = 2 ^ 52 * ulp x" by (simp add: u)
  have "2 powi b \<le> x" unfolding b_def using pos by (rule binary_exponent_bounds)
  then have "2 ^ 52 \<le> x / ulp x" unfolding pb using up by (simp add: field_simps)
  then have "real_of_int (2 ^ 52) \<le> x / ulp x" by simp
  then have "2 ^ 52 \<le> round_half_even (x / ulp x)" by (rule round_half_even_ge)
  then have "real_of_int (2 ^ 52) \<le> real_of_int (round_half_even (x / ulp x))"
    by (simp only: of_int_le_iff)
  then have "2 ^ 52 * ulp x \<le> real_of_int (round_half_even (x / ulp x)) * ulp x"
    using up by (intro mult_right_mono) simp_all
  then have "2 powi b \<le> round_real x" using pos by (simp add: round_real_def pb)
  moreover have "(2::real) powi j \<le> 2 powi b" using jb by (intro power_int_increasing) simp_all
  ultimately show ?thesis by linarith
qed

lemma round_real_eval:
  assumes "2 powi e \<le> \<bar>x\<bar>" and "\<bar>x\<bar> < 2 powi (e + 1)" and "- 1022 \<le> e"
  shows "round_real x = of_int (round_half_even (x / 2 powi (e - 52))) * 2 powi (e - 52)"
proof -
  have "0 < (2::real) powi e" by simp
  with assms(1) have "0 < \<bar>x\<bar>" by linarith
  then have nz: "x \<noteq> 0" by simp
  have "binary_exponent \<bar>x\<bar> = e" using assms(1,2) by (rule binary_exponent_eqI)
  then have "ulp x = 2 powi (e - 52)" using assms(3) by (simp add: ulp_def)
  then show ?thesis using nz by (simp add: round_real_def)
qed

lemma round_to_double_finite:
  assumes "\<bar>x\<bar> \<le> 2 ^ k" and "k < 1024"
  shows "round_to_double x = Finite (round_real x)"
proof -
  have "\<bar>round_real x\<bar> \<le> 2 ^ k" using assms(1) by (rule round_real_abs_le)
  moreover have "(2::real) ^ k < 2 ^ 1024" using assms(2) by (intro power_strict_increasing) simp_all
  ultimately have "\<not> 2 ^ 1024 \<le> \<bar>round_real x\<bar>" by linarith
  then show ?thesis by (simp add: round_to_double_def Let_def)
qed

lemma round_real_abs_error:
  assumes "\<bar>x\<bar> \<le> 2 powi k" and "- 1022 \<le> k"
  shows "\<bar>round_real x - x\<bar> \<le> 2 powi (k - 53)"
proof (cases "x = 0")
  case True
  then show ?thesis by (simp add: round_real_zero)
next
  case False
  define e where "e = max (binary_exponent \<bar>x\<bar>) (- 1022)"
  have u: "ulp x = 2 powi (e - 52)" by (simp add: ulp_def e_def)
  have up: "0 < ulp x" by (rule ulp_pos)
  have "binary_exponent \<bar>x\<bar> \<le> k" using False assms(1) by (intro binary_exponent_le) simp_all
  then have ek: "e \<le> k" using assms(2) by (simp add: e_def)
  have "round_real x - x = (real_of_int (round_half_even (x / ulp x)) - x / ulp x) * ulp x"
    using False up by (simp add: round_real_def field_simps)
  then have "\<bar>round_real x - x\<bar> = \<bar>real_of_int (round_half_even (x / ulp x)) - x / ulp x\<bar> * ulp x"
    using up by (simp add: abs_mult)
  also have "\<dots> \<le> 1 / 2 * ulp x"
    using up round_half_even_error [of "x / ulp x"] by (intro mult_right_mono) simp_all
  also have "\<dots> = 2 powi (e - 53)"
  proof -
    have "(2::real) powi (e - 52) = 2 powi (e - 53 + 1)" by simp
    also have "\<dots> = 2 powi (e - 53) * 2" by (subst power_int_add) simp_all
    finally show ?thesis by (simp add: u)
  qed
  also have "\<dots> \<le> 2 powi (k - 53)" using ek by (intro power_int_increasing) simp_all
  finally show ?thesis .
qed

subsection \<open>Values that are doubles already, and evaluation\<close>

lemma round_real_exact:
  assumes "x / ulp x = of_int m"
  shows "round_real x = x"
proof (cases "x = 0")
  case True
  then show ?thesis by (simp add: round_real_zero)
next
  case False
  have up: "0 < ulp x" by (rule ulp_pos)
  have "round_real x = of_int m * ulp x"
    using False by (simp add: round_real_def assms round_half_even_of_int)
  also have "\<dots> = x / ulp x * ulp x" by (simp only: assms)
  also have "\<dots> = x" using up by simp
  finally show ?thesis .
qed

lemma round_real_of_nat:
  assumes "n \<le> 2 ^ 53"
  shows "round_real (real n) = real n"
proof (cases "n = 0")
  case True
  then show ?thesis by (simp add: round_real_zero)
next
  case False
  define x where "x = real n"
  have x1: "1 \<le> x" using False by (simp add: x_def)
  then have pos: "0 < x" by simp
  have xh: "x \<le> 2 ^ 53" unfolding x_def using assms
    by (metis of_nat_le_iff of_nat_numeral of_nat_power)
  define b where "b = binary_exponent x"
  have "2 powi 0 \<le> x" using x1 by simp
  then have b0: "0 \<le> b" unfolding b_def by (rule binary_exponent_ge)
  have "x \<le> 2 powi 53" using xh by simp
  then have b53: "b \<le> 53" unfolding b_def using pos by (intro binary_exponent_le)
  have "\<bar>x\<bar> = x" using pos by simp
  moreover have "max b (- 1022) = b" using b0 by simp
  ultimately have u: "ulp x = 2 powi (b - 52)" by (simp add: ulp_def b_def)
  have "\<exists>m. x / ulp x = real_of_int m"
  proof (cases "b \<le> 52")
    case True
    have "x / ulp x = x * 2 powi (52 - b)"
      unfolding u by (simp add: power_int_diff field_simps)
    also have "(2::real) powi (52 - b) = 2 ^ nat (52 - b)"
      using True by (simp add: power_int_nonneg_exp)
    finally have "x / ulp x = real_of_int (int n * 2 ^ nat (52 - b))" by (simp add: x_def)
    then show ?thesis by blast
  next
    case False
    with b53 have b: "b = 53" by simp
    have "2 powi b \<le> x" unfolding b_def using pos by (rule binary_exponent_bounds)
    with xh have x53: "x = 2 ^ 53" by (simp add: b)
    have ux: "ulp x = 2" using u b by simp
    have "x / ulp x = x / 2" by (simp only: ux)
    also have "\<dots> = real_of_int (2 ^ 52)" using x53 by simp
    finally show ?thesis by blast
  qed
  then obtain m where "x / ulp x = real_of_int m" by blast
  then have "round_real x = x" by (rule round_real_exact)
  then show ?thesis by (simp add: x_def)
qed

lemma round_real_evalI:
  assumes "2 powi e \<le> \<bar>x\<bar>" and "\<bar>x\<bar> < 2 powi (e + 1)" and "- 1022 \<le> e"
    and "of_int (round_half_even (x / 2 powi (e - 52))) * 2 powi (e - 52) = r"
  shows "round_real x = r"
  using round_real_eval [OF assms(1-3)] assms(4) by simp

lemma round_real_one_third: "round_real (1 / 3) = 6004799503160661 / 18014398509481984"
  by (rule round_real_evalI [where e = "- 2"]) (simp_all add: round_half_even_def)

lemma round_real_third_times_100:
  "round_real (6004799503160661 / 18014398509481984 * 100) = 2345624805922133 / 70368744177664"
  by (rule round_real_evalI [where e = 5]) (simp_all add: round_half_even_def)

lemma round_real_100_minus:
  "round_real (100 - 2345624805922133 / 70368744177664) = 4691249611844267 / 70368744177664"
  by (rule round_real_evalI [where e = 6]) (simp_all add: round_half_even_def)

lemma round_real_numerals:
  "round_real 1 = 1" "round_real 3 = 3" "round_real 10 = 10" "round_real 25 = 25"
  "round_real 40 = 40" "round_real 75 = 75" "round_real 100 = 100"
  using round_real_of_nat [of 1] round_real_of_nat [of 3] round_real_of_nat [of 10]
    round_real_of_nat [of 25] round_real_of_nat [of 40] round_real_of_nat [of 75]
    round_real_of_nat [of 100]
  by simp_all

lemma round_real_quarter: "round_real (1 / 4) = 1 / 4"
  by (rule round_real_evalI [where e = "- 2"]) (simp_all add: round_half_even_def)

section \<open>UsageSampler\<close>

text \<open>
  Claim C7. Every byte count returned by the process-memory query is reported in whole
  megabytes, by truncating division by \<open>1024 * 1024\<close>: \<open>print_memory_usage\<close> prints the
  quotient for the committed and for the resident size, and a committed size of
  \<open>2 * 1024 * 1024 * 3\<close> bytes is reported as 6.
\<close>

theorem memory_reported_in_whole_megabytes:
  "unat (megabytes b) = unat b div (1024 * 1024)
   \<and> megabytes (2 * 1024 * 1024 * 3) = 6
   \<and> events (print_memory_usage (env\<lparr>memory_counters := Some pmc\<rparr>) s)
       = events s @ [GetProcessMemoryInfo,
           Cout (Msg_VmSize (megabytes (PagefileUsage pmc))),
           Cout (Msg_VmRSS (megabytes (WorkingSetSize pmc)))]"
  by (simp add: megabytes_def unat_div_distrib print_memory_usage_def Let_def emit_simps)

subsection \<open>The utilisation formula\<close>

text \<open>
  The conversion of a 64-bit delta is a finite double between 0 and \<open>2 ^ 64\<close>, and at
  least 1 when the delta is not zero.
\<close>

lemma round_nat_bounds:
  assumes "n < 2 ^ 64"
  shows "0 \<le> round_real (real n)" and "round_real (real n) \<le> 2 ^ 64"
    and "round_to_double (real n) = Finite (round_real (real n))"
proof -
  show "0 \<le> round_real (real n)" by (rule round_real_nonneg) simp
  have "real n < real (2 ^ 64)" using assms by (simp only: of_nat_less_iff)
  then have le: "\<bar>real n\<bar> \<le> 2 ^ 64" by simp
  then have "\<bar>round_real (real n)\<bar> \<le> 2 ^ 64" by (rule round_real_abs_le)
  then show "round_real (real n) \<le> 2 ^ 64" by linarith
  show "round_to_double (real n) = Finite (round_real (real n))"
    using le by (rule round_to_double_finite) simp
qed

lemma round_nat_ge_one:
  assumes "n \<noteq> 0"
  shows "1 \<le> round_real (real n)"
proof -
  have "1 \<le> real n" using assms by simp
  then have "2 powi 0 \<le> real n" by simp
  then have "2 powi 0 \<le> round_real (real n)" by (intro round_real_ge_pow) simp_all
  then show ?thesis by simp
qed

lemma unat_u64_less_pow: "unat (w :: u64) < 2 ^ 64"
  using unsigned_less [of w, where 'a = nat] by simp

lemma double_of_u64_finite: "double_of_u64 w = Finite (round_real (real (unat w)))"
  unfolding double_of_u64_def by (rule round_nat_bounds(3) [OF unat_u64_less_pow])

lemma round_u64_bounds:
  "0 \<le> round_real (real (unat (w :: u64)))" "round_real (real (unat w)) \<le> 2 ^ 64"
  by (rule round_nat_bounds [OF unat_u64_less_pow])+

lemma round_u64_ge_one:
  assumes "(w :: u64) \<noteq> 0"
  shows "1 \<le> round_real (real (unat w))"
proof (rule round_nat_ge_one)
  show "unat w \<noteq> 0" using assms by (simp add: unat_eq_zero)
qed

text \<open>Above \<open>2 ^ 53\<close> the conversion rounds: \<open>2 ^ 53 + 1\<close> becomes \<open>2 ^ 53\<close>.\<close>

lemma double_of_u64_rounds: "double_of_u64 9007199254740993 = Finite 9007199254740992"
proof -
  have "round_real 9007199254740993 = 9007199254740992"
    by (rule round_real_evalI [where e = 53]) (simp_all add: round_half_even_def)
  moreover have "real (unat (9007199254740993 :: u64)) = 9007199254740993" by simp
  ultimately show ?thesis by (simp only: double_of_u64_finite)
qed

text \<open>The three rounded operations of line 86, for a non-zero system delta.\<close>

lemma cpuUsage_nonzero:
  assumes "systemTimeDelta t1 t2 \<noteq> 0"
  shows "cpuUsage t1 t2 =
     Finite (round_real (100 - round_real
       (round_real (round_real (real (unat (idleTimeDelta t1 t2)))
                    / round_real (real (unat (systemTimeDelta t1 t2)))) * 100)))"
proof -
  define a where "a = round_real (real (unat (idleTimeDelta t1 t2)))"
  define b where "b = round_real (real (unat (systemTimeDelta t1 t2)))"
  have a: "0 \<le> a" "a \<le> 2 ^ 64" unfolding a_def by (rule round_u64_bounds)+
  have b: "1 \<le> b" unfolding b_def using assms by (rule round_u64_ge_one)
  have "a * 1 \<le> a * b" using a(1) b by (intro mult_left_mono) simp_all
  then have "a / b \<le> a" using b by (simp add: field_simps)
  moreover have "0 \<le> a / b" using a(1) b by simp
  ultimately have q: "\<bar>a / b\<bar> \<le> 2 ^ 64" using a(2) by linarith
  define c where "c = round_real (a / b)"
  have c: "\<bar>c\<bar> \<le> 2 ^ 64" unfolding c_def using q by (rule round_real_abs_le)
  have d1: "double_div (Finite a) (Finite b) = Finite c"
    using b round_to_double_finite [OF q] by (simp add: c_def)
  have "\<bar>c * 100\<bar> \<le> 2 ^ 64 * 128" using c by (simp add: abs_mult)
  then have p: "\<bar>c * 100\<bar> \<le> 2 ^ 71" by simp
  define d where "d = round_real (c * 100)"
  have d: "\<bar>d\<bar> \<le> 2 ^ 71" unfolding d_def using p by (rule round_real_abs_le)
  have d2: "double_mul (Finite c) (Finite 100) = Finite d"
    using round_to_double_finite [OF p] by (simp add: d_def)
  have "\<bar>100 - d\<bar> \<le> 100 + 2 ^ 71" using d by linarith
  then have r: "\<bar>100 - d\<bar> \<le> 2 ^ 72" by simp
  have d3: "double_sub (Finite 100) (Finite d) = Finite (round_real (100 - d))"
    using round_to_double_finite [OF r] by simp
  show ?thesis
    unfolding cpuUsage_def double_of_u64_finite
    by (simp only: d1 d2 d3 a_def [symmetric] b_def [symmetric])
      (simp add: d_def c_def a_def b_def)
qed

lemma cpuUsage_zero:
  assumes "systemTimeDelta t1 t2 = 0"
  shows "cpuUsage t1 t2 = (if idleTimeDelta t1 t2 = 0 then NaN else NegInf)"
proof (cases "idleTimeDelta t1 t2 = 0")
  case True
  then show ?thesis using assms
    by (simp add: cpuUsage_def double_of_u64_finite round_real_zero)
next
  case False
  then have "1 \<le> round_real (real (unat (idleTimeDelta t1 t2)))" by (rule round_u64_ge_one)
  then have "0 < round_real (real (unat (idleTimeDelta t1 t2)))" by linarith
  then show ?thesis using assms False
    by (simp add: cpuUsage_def double_of_u64_finite round_real_zero)
qed

text \<open>
  Accuracy. With deltas up to \<open>2 ^ 53\<close> the conversions are exact, the quotient is at most 1
  and each of the three roundings adds at most \<open>2 ^ - 46\<close>.
\<close>

lemma cpuUsage_accuracy:
  assumes nz: "systemTimeDelta t1 t2 \<noteq> 0"
    and le: "unat (idleTimeDelta t1 t2) \<le> unat (systemTimeDelta t1 t2)"
    and small: "unat (systemTimeDelta t1 t2) \<le> 2 ^ 53"
  shows "\<exists>v. cpuUsage t1 t2 = Finite v
           \<and> \<bar>v - 100 * (1 - real (unat (idleTimeDelta t1 t2))
                                / real (unat (systemTimeDelta t1 t2)))\<bar> \<le> 1 / 2 ^ 44"
proof -
  define i where "i = unat (idleTimeDelta t1 t2)"
  define s where "s = unat (systemTimeDelta t1 t2)"
  have s0: "s \<noteq> 0" using nz by (simp add: s_def unat_eq_zero)
  have ile: "i \<le> s" and s53: "s \<le> 2 ^ 53" using le small by (simp_all add: i_def s_def)
  then have i53: "i \<le> 2 ^ 53" by simp
  have ri: "round_real (real i) = real i" using i53 by (rule round_real_of_nat)
  have rs: "round_real (real s) = real s" using s53 by (rule round_real_of_nat)
  define q where "q = real i / real s"
  have q0: "0 \<le> q" by (simp add: q_def)
  have q1: "q \<le> 1" using ile s0 by (simp add: q_def)
  define c where "c = round_real q"
  have "\<bar>q\<bar> \<le> 2 powi 0" using q0 q1 by simp
  then have "\<bar>c - q\<bar> \<le> 2 powi (0 - 53)" unfolding c_def by (rule round_real_abs_error) simp
  then have cq: "\<bar>c - q\<bar> \<le> 1 / 2 ^ 53" by (simp add: power_int_minus_divide)
  have c0: "0 \<le> c" unfolding c_def using q0 by (rule round_real_nonneg)
  have "\<bar>q\<bar> \<le> 2 ^ 0" using q0 q1 by simp
  then have "\<bar>c\<bar> \<le> 2 ^ 0" unfolding c_def by (rule round_real_abs_le)
  then have c1: "c \<le> 1" by simp
  define d where "d = round_real (c * 100)"
  have p: "\<bar>c * 100\<bar> \<le> 2 powi 7" using c0 c1 by simp
  then have "\<bar>d - c * 100\<bar> \<le> 2 powi (7 - 53)" unfolding d_def by (rule round_real_abs_error) simp
  then have dp: "\<bar>d - c * 100\<bar> \<le> 1 / 2 ^ 46" by (simp add: power_int_minus_divide)
  have d0: "0 \<le> d" unfolding d_def using c0 by (intro round_real_nonneg) simp
  have "\<bar>c * 100\<bar> \<le> 2 ^ 7" using c0 c1 by simp
  then have "\<bar>d\<bar> \<le> 2 ^ 7" unfolding d_def by (rule round_real_abs_le)
  then have d128: "d \<le> 128" by simp
  define v where "v = round_real (100 - d)"
  have f: "\<bar>100 - d\<bar> \<le> 2 powi 7" using d0 d128 by simp
  then have "\<bar>v - (100 - d)\<bar> \<le> 2 powi (7 - 53)" unfolding v_def by (rule round_real_abs_error) simp
  then have vf: "\<bar>v - (100 - d)\<bar> \<le> 1 / 2 ^ 46" by (simp add: power_int_minus_divide)
  have "c * 100 - q * 100 = (c - q) * 100" by (simp add: algebra_simps)
  then have "\<bar>c * 100 - q * 100\<bar> = \<bar>c - q\<bar> * \<bar>100\<bar>" by (simp only: abs_mult)
  then have "\<bar>c * 100 - q * 100\<bar> = \<bar>c - q\<bar> * 100" by simp
  also have "\<dots> \<le> 1 / 2 ^ 53 * 100" using cq by (intro mult_right_mono) simp_all
  also have "\<dots> \<le> 1 / 2 ^ 46" by simp
  finally have pq: "\<bar>c * 100 - q * 100\<bar> \<le> 1 / 2 ^ 46" .
  have "v - 100 * (1 - q) = (v - (100 - d)) - (d - c * 100) - (c * 100 - q * 100)"
    by (simp add: algebra_simps)
  also have "\<bar>\<dots>\<bar> \<le> \<bar>(v - (100 - d)) - (d - c * 100)\<bar> + \<bar>c * 100 - q * 100\<bar>"
    by (rule abs_triangle_ineq4)
  also have "\<dots> \<le> \<bar>v - (100 - d)\<bar> + \<bar>d - c * 100\<bar> + \<bar>c * 100 - q * 100\<bar>"
    using abs_triangle_ineq4 [of "v - (100 - d)" "d - c * 100"] by linarith
  finally have "\<bar>v - 100 * (1 - q)\<bar> \<le> \<bar>v - (100 - d)\<bar> + \<bar>d - c * 100\<bar> + \<bar>c * 100 - q * 100\<bar>" .
  also have "\<dots> \<le> 1 / 2 ^ 46 + 1 / 2 ^ 46 + 1 / 2 ^ 46" using vf dp pq by linarith
  also have "\<dots> \<le> 1 / 2 ^ 44" by simp
  finally have acc: "\<bar>v - 100 * (1 - q)\<bar> \<le> 1 / 2 ^ 44" .
  have "cpuUsage t1 t2 = Finite v"
    using cpuUsage_nonzero [OF nz]
    by (simp only: i_def [symmetric] s_def [symmetric] ri rs q_def [symmetric] c_def [symmetric]
        d_def [symmetric] v_def [symmetric])
  with acc show ?thesis by (auto simp: q_def i_def s_def)
qed

lemma cpuUsage_idle_zero:
  assumes "idleTimeDelta t1 t2 = 0" and "systemTimeDelta t1 t2 = 100"
  shows "cpuUsage t1 t2 = Finite 100"
proof -
  have "systemTimeDelta t1 t2 \<noteq> 0" using assms(2) by simp
  from cpuUsage_nonzero [OF this] show ?thesis
    by (simp add: assms round_real_zero round_real_numerals)
qed

lemma cpuUsage_all_idle:
  assumes "systemTimeDelta t1 t2 \<noteq> 0" and "idleTimeDelta t1 t2 = systemTimeDelta t1 t2"
  shows "cpuUsage t1 t2 = Finite 0"
proof -
  define b where "b = round_real (real (unat (systemTimeDelta t1 t2)))"
  have "1 \<le> b" unfolding b_def using assms(1) by (rule round_u64_ge_one)
  then have one: "b / b = 1" by simp
  have "cpuUsage t1 t2 = Finite (round_real (100 - round_real (round_real (b / b) * 100)))"
    using cpuUsage_nonzero [OF assms(1)] by (simp only: assms(2) b_def [symmetric])
  then show ?thesis by (simp only: one) (simp add: round_real_numerals round_real_zero)
qed

lemma delta_monotone:
  assumes "unat a \<le> unat (b :: u64)"
  shows "unat (b - a) = unat b - unat a"
  using assms by (simp add: unat_sub word_le_nat_alt)

lemma systemTimeDelta_exact:
  assumes "unat (QuadPart (kernelTime t1)) + unat (QuadPart (userTime t1))
             \<le> unat (QuadPart (kernelTime t2)) + unat (QuadPart (userTime t2))"
    and "unat (QuadPart (kernelTime t2)) + unat (QuadPart (userTime t2)) < 2 ^ 64"
  shows "unat (systemTimeDelta t1 t2)
     = (unat (QuadPart (kernelTime t2)) + unat (QuadPart (userTime t2)))
       - (unat (QuadPart (kernelTime t1)) + unat (QuadPart (userTime t1)))"
proof -
  have s2: "unat (QuadPart (kernelTime t2) + QuadPart (userTime t2))
      = unat (QuadPart (kernelTime t2)) + unat (QuadPart (userTime t2))"
    using assms(2) by (simp add: unat_word_ariths)
  have "unat (QuadPart (kernelTime t1)) + unat (QuadPart (userTime t1)) < 2 ^ 64"
    using assms by linarith
  then have s1: "unat (QuadPart (kernelTime t1) + QuadPart (userTime t1))
      = unat (QuadPart (kernelTime t1)) + unat (QuadPart (userTime t1))"
    by (simp add: unat_word_ariths)
  show ?thesis
    unfolding systemTimeDelta_def using assms(1) by (subst delta_monotone) (simp_all add: s1 s2)
qed

lemma QuadPart_low: "QuadPart \<lparr>dwLowDateTime = w, dwHighDateTime = 0\<rparr> = ucast w"
  by (simp add: QuadPart_def)

lemma example_deltas:
  "systemTimeDelta
      \<lparr>idleTime = \<lparr>dwLowDateTime = a, dwHighDateTime = 0\<rparr>,
       kernelTime = \<lparr>dwLowDateTime = b, dwHighDateTime = 0\<rparr>,
       userTime = \<lparr>dwLowDateTime = c, dwHighDateTime = 0\<rparr>\<rparr>
      \<lparr>idleTime = \<lparr>dwLowDateTime = a', dwHighDateTime = 0\<rparr>,
       kernelTime = \<lparr>dwLowDateTime = b', dwHighDateTime = 0\<rparr>,
       userTime = \<lparr>dwLowDateTime = c', dwHighDateTime = 0\<rparr>\<rparr>
     = (ucast b' + ucast c') - (ucast b + ucast c)"
  "idleTimeDelta
      \<lparr>idleTime = \<lparr>dwLowDateTime = a, dwHighDateTime = 0\<rparr>,
       kernelTime = \<lparr>dwLowDateTime = b, dwHighDateTime = 0\<rparr>,
       userTime = \<lparr>dwLowDateTime = c, dwHighDateTime = 0\<rparr>\<rparr>
      \<lparr>idleTime = \<lparr>dwLowDateTime = a', dwHighDateTime = 0\<rparr>,
       kernelTime = \<lparr>dwLowDateTime = b', dwHighDateTime = 0\<rparr>,
       userTime = \<lparr>dwLowDateTime = c', dwHighDateTime = 0\<rparr>\<rparr>
     = ucast a' - ucast a"
  by (simp_all add: systemTimeDelta_def idleTimeDelta_def QuadPart_low)

text \<open>
  Claim C3, as the code has it. For every pair of snapshots whose \<open>systemTimeDelta\<close> (kernel
  plus user time of the second snapshot minus that of the first) is not zero, the computed
  utilisation is \<open>100.0 - idleTimeDelta / systemTimeDelta * 100.0\<close> evaluated in double
  arithmetic: the two conversions, the division, the multiplication and the subtraction
  are each rounded to the nearest double. The result is a finite number; it lies within
  \<open>2 ^ - 44\<close> of \<open>100 * (1 - idleTimeDelta / systemTimeDelta)\<close> when the idle delta is at most
  the system delta and the system delta is at most \<open>2 ^ 53\<close>. An idle delta of 0 with a
  system delta of 100 gives exactly 100, and an idle delta equal to the system delta gives
  exactly 0. The deltas are the 64-bit differences the code computes; for counters that did
  not decrease and whose sum fits in 64 bits they are the differences of the counters as
  numbers.
\<close>

theorem cpu_usage_formula:
  "(systemTimeDelta t1 t2 \<noteq> 0 \<longrightarrow>
      cpuUsage t1 t2 =
        Finite (round_real (100 - round_real
          (round_real (round_real (real (unat (idleTimeDelta t1 t2)))
                       / round_real (real (unat (systemTimeDelta t1 t2)))) * 100))))
   \<and> (systemTimeDelta t1 t2 \<noteq> 0
        \<and> unat (idleTimeDelta t1 t2) \<le> unat (systemTimeDelta t1 t2)
        \<and> unat (systemTimeDelta t1 t2) \<le> 2 ^ 53 \<longrightarrow>
        (\<exists>v. cpuUsage t1 t2 = Finite v
           \<and> \<bar>v - 100 * (1 - real (unat (idleTimeDelta t1 t2))
                                / real (unat (systemTimeDelta t1 t2)))\<bar> \<le> 1 / 2 ^ 44))
   \<and> (idleTimeDelta t1 t2 = 0 \<and> systemTimeDelta t1 t2 = 100 \<longrightarrow> cpuUsage t1 t2 = Finite 100)
   \<and> (systemTimeDelta t1 t2 \<noteq> 0 \<and> idleTimeDelta t1 t2 = systemTimeDelta t1 t2 \<longrightarrow>
        cpuUsage t1 t2 = Finite 0)
   \<and> (unat (QuadPart (kernelTime t1)) + unat (QuadPart (userTime t1))
          \<le> unat (QuadPart (kernelTime t2)) + unat (QuadPart (userTime t2))
        \<and> unat (QuadPart (kernelTime t2)) + unat (QuadPart (userTime t2)) < 2 ^ 64 \<longrightarrow>
        unat (systemTimeDelta t1 t2)
          = (unat (QuadPart (kernelTime t2)) + unat (QuadPart (userTime t2)))
            - (unat (QuadPart (kernelTime t1)) + unat (QuadPart (userTime t1))))
   \<and> (unat (QuadPart (idleTime t1)) \<le> unat (QuadPart (idleTime t2)) \<longrightarrow>
        unat (idleTimeDelta t1 t2)
          = unat (QuadPart (idleTime t2)) - unat (QuadPart (idleTime t1)))"
proof (intro conjI impI)
  assume "systemTimeDelta t1 t2 \<noteq> 0"
  then show "cpuUsage t1 t2 =
        Finite (round_real (100 - round_real
          (round_real (round_real (real (unat (idleTimeDelta t1 t2)))
                       / round_real (real (unat (systemTimeDelta t1 t2)))) * 100)))"
    by (rule cpuUsage_nonzero)
next
  assume "systemTimeDelta t1 t2 \<noteq> 0
        \<and> unat (idleTimeDelta t1 t2) \<le> unat (systemTimeDelta t1 t2)
        \<and> unat (systemTimeDelta t1 t2) \<le> 2 ^ 53"
  then show "\<exists>v. cpuUsage t1 t2 = Finite v
           \<and> \<bar>v - 100 * (1 - real (unat (idleTimeDelta t1 t2))
                                / real (unat (systemTimeDelta t1 t2)))\<bar> \<le> 1 / 2 ^ 44"
    by (intro cpuUsage_accuracy) simp_all
next
  assume "idleTimeDelta t1 t2 = 0 \<and> systemTimeDelta t1 t2 = 100"
  then show "cpuUsage t1 t2 = Finite 100" by (intro cpuUsage_idle_zero) simp_all
next
  assume "systemTimeDelta t1 t2 \<noteq> 0 \<and> idleTimeDelta t1 t2 = systemTimeDelta t1 t2"
  then show "cpuUsage t1 t2 = Finite 0" by (intro cpuUsage_all_idle) simp_all
next
  assume "unat (QuadPart (kernelTime t1)) + unat (QuadPart (userTime t1))
          \<le> unat (QuadPart (kernelTime t2)) + unat (QuadPart (userTime t2))
        \<and> unat (QuadPart (kernelTime t2)) + unat (QuadPart (userTime t2)) < 2 ^ 64"
  then show "unat (systemTimeDelta t1 t2)
          = (unat (QuadPart (kernelTime t2)) + unat (QuadPart (userTime t2)))
            - (unat (QuadPart (kernelTime t1)) + unat (QuadPart (userTime t1)))"
    by (intro systemTimeDelta_exact) simp_all
next
  assume "unat (QuadPart (idleTime t1)) \<le> unat (QuadPart (idleTime t2))"
  then show "unat (idleTimeDelta t1 t2)
          = unat (QuadPart (idleTime t2)) - unat (QuadPart (idleTime t1))"
    unfolding idleTimeDelta_def by (rule delta_monotone)
qed

theorem cpu_usage_formula_witness:
  "cpuUsage
      \<lparr>idleTime = \<lparr>dwLowDateTime = 7, dwHighDateTime = 0\<rparr>,
       kernelTime = \<lparr>dwLowDateTime = 10, dwHighDateTime = 0\<rparr>,
       userTime = \<lparr>dwLowDateTime = 20, dwHighDateTime = 0\<rparr>\<rparr>
      \<lparr>idleTime = \<lparr>dwLowDateTime = 7, dwHighDateTime = 0\<rparr>,
       kernelTime = \<lparr>dwLowDateTime = 70, dwHighDateTime = 0\<rparr>,
       userTime = \<lparr>dwLowDateTime = 60, dwHighDateTime = 0\<rparr>\<rparr> = Finite 100
   \<and> cpuUsage
      \<lparr>idleTime = \<lparr>dwLowDateTime = 0, dwHighDateTime = 0\<rparr>,
       kernelTime = \<lparr>dwLowDateTime = 10, dwHighDateTime = 0\<rparr>,
       userTime = \<lparr>dwLowDateTime = 20, dwHighDateTime = 0\<rparr>\<rparr>
      \<lparr>idleTime = \<lparr>dwLowDateTime = 50, dwHighDateTime = 0\<rparr>,
       kernelTime = \<lparr>dwLowDateTime = 40, dwHighDateTime = 0\<rparr>,
       userTime = \<lparr>dwLowDateTime = 40, dwHighDateTime = 0\<rparr>\<rparr> = Finite 0
   \<and> cpuUsage
      \<lparr>idleTime = \<lparr>dwLowDateTime = 0, dwHighDateTime = 0\<rparr>,
       kernelTime = \<lparr>dwLowDateTime = 10, dwHighDateTime = 0\<rparr>,
       userTime = \<lparr>dwLowDateTime = 20, dwHighDateTime = 0\<rparr>\<rparr>
      \<lparr>idleTime = \<lparr>dwLowDateTime = 10, dwHighDateTime = 0\<rparr>,
       kernelTime = \<lparr>dwLowDateTime = 40, dwHighDateTime = 0\<rparr>,
       userTime = \<lparr>dwLowDateTime = 30, dwHighDateTime = 0\<rparr>\<rparr> = Finite 75
   \<and> (\<exists>v. cpuUsage
      \<lparr>idleTime = \<lparr>dwLowDateTime = 0, dwHighDateTime = 0\<rparr>,
       kernelTime = \<lparr>dwLowDateTime = 0, dwHighDateTime = 0\<rparr>,
       userTime = \<lparr>dwLowDateTime = 0, dwHighDateTime = 0\<rparr>\<rparr>
      \<lparr>idleTime = \<lparr>dwLowDateTime = 1, dwHighDateTime = 0\<rparr>,
       kernelTime = \<lparr>dwLowDateTime = 3, dwHighDateTime = 0\<rparr>,
       userTime = \<lparr>dwLowDateTime = 0, dwHighDateTime = 0\<rparr>\<rparr> = Finite v
       \<and> \<bar>v - 100 * (1 - 1 / 3)\<bar> \<le> 1 / 2 ^ 44)
   \<and> unat (systemTimeDelta
      \<lparr>idleTime = \<lparr>dwLowDateTime = 0, dwHighDateTime = 0\<rparr>,
       kernelTime = \<lparr>dwLowDateTime = 10, dwHighDateTime = 0\<rparr>,
       userTime = \<lparr>dwLowDateTime = 20, dwHighDateTime = 0\<rparr>\<rparr>
      \<lparr>idleTime = \<lparr>dwLowDateTime = 10, dwHighDateTime = 0\<rparr>,
       kernelTime = \<lparr>dwLowDateTime = 40, dwHighDateTime = 0\<rparr>,
       userTime = \<lparr>dwLowDateTime = 30, dwHighDateTime = 0\<rparr>\<rparr>) = (40 + 30) - (10 + 20)
   \<and> unat (idleTimeDelta
      \<lparr>idleTime = \<lparr>dwLowDateTime = 0, dwHighDateTime = 0\<rparr>,
       kernelTime = \<lparr>dwLowDateTime = 10, dwHighDateTime = 0\<rparr>,
       userTime = \<lparr>dwLowDateTime = 20, dwHighDateTime = 0\<rparr>\<rparr>
      \<lparr>idleTime = \<lparr>dwLowDateTime = 10, dwHighDateTime = 0\<rparr>,
       kernelTime = \<lparr>dwLowDateTime = 40, dwHighDateTime = 0\<rparr>,
       userTime = \<lparr>dwLowDateTime = 30, dwHighDateTime = 0\<rparr>\<rparr>) = 10 - 0"
proof -
  let ?a0 = "\<lparr>idleTime = \<lparr>dwLowDateTime = 7, dwHighDateTime = 0\<rparr>,
       kernelTime = \<lparr>dwLowDateTime = 10, dwHighDateTime = 0\<rparr>,
       userTime = \<lparr>dwLowDateTime = 20, dwHighDateTime = 0\<rparr>\<rparr>"
  let ?a1 = "\<lparr>idleTime = \<lparr>dwLowDateTime = 7, dwHighDateTime = 0\<rparr>,
       kernelTime = \<lparr>dwLowDateTime = 70, dwHighDateTime = 0\<rparr>,
       userTime = \<lparr>dwLowDateTime = 60, dwHighDateTime = 0\<rparr>\<rparr>"
  let ?b0 = "\<lparr>idleTime = \<lparr>dwLowDateTime = 0, dwHighDateTime = 0\<rparr>,
       kernelTime = \<lparr>dwLowDateTime = 10, dwHighDateTime = 0\<rparr>,
       userTime = \<lparr>dwLowDateTime = 20, dwHighDateTime = 0\<rparr>\<rparr>"
  let ?b1 = "\<lparr>idleTime = \<lparr>dwLowDateTime = 50, dwHighDateTime = 0\<rparr>,
       kernelTime = \<lparr>dwLowDateTime = 40, dwHighDateTime = 0\<rparr>,
       userTime = \<lparr>dwLowDateTime = 40, dwHighDateTime = 0\<rparr>\<rparr>"
  let ?c1 = "\<lparr>idleTime = \<lparr>dwLowDateTime = 10, dwHighDateTime = 0\<rparr>,
       kernelTime = \<lparr>dwLowDateTime = 40, dwHighDateTime = 0\<rparr>,
       userTime = \<lparr>dwLowDateTime = 30, dwHighDateTime = 0\<rparr>\<rparr>"
  let ?d0 = "\<lparr>idleTime = \<lparr>dwLowDateTime = 0, dwHighDateTime = 0\<rparr>,
       kernelTime = \<lparr>dwLowDateTime = 0, dwHighDateTime = 0\<rparr>,
       userTime = \<lparr>dwLowDateTime = 0, dwHighDateTime = 0\<rparr>\<rparr>"
  let ?d1 = "\<lparr>idleTime = \<lparr>dwLowDateTime = 1, dwHighDateTime = 0\<rparr>,
       kernelTime = \<lparr>dwLowDateTime = 3, dwHighDateTime = 0\<rparr>,
       userTime = \<lparr>dwLowDateTime = 0, dwHighDateTime = 0\<rparr>\<rparr>"
  have ha: "idleTimeDelta ?a0 ?a1 = 0 \<and> systemTimeDelta ?a0 ?a1 = 100"
    by (simp add: example_deltas)
  have hb: "systemTimeDelta ?b0 ?b1 \<noteq> 0 \<and> idleTimeDelta ?b0 ?b1 = systemTimeDelta ?b0 ?b1"
    by (simp add: example_deltas)
  have ic: "idleTimeDelta ?b0 ?c1 = 10" and sc: "systemTimeDelta ?b0 ?c1 = 40"
    by (simp_all add: example_deltas)
  have hc: "systemTimeDelta ?b0 ?c1 \<noteq> 0" by (simp add: sc)
  have id: "idleTimeDelta ?d0 ?d1 = 1" and sd: "systemTimeDelta ?d0 ?d1 = 3"
    by (simp_all add: example_deltas)
  have hd: "systemTimeDelta ?d0 ?d1 \<noteq> 0
        \<and> unat (idleTimeDelta ?d0 ?d1) \<le> unat (systemTimeDelta ?d0 ?d1)
        \<and> unat (systemTimeDelta ?d0 ?d1) \<le> 2 ^ 53"
    by (simp add: id sd)
  have a: "cpuUsage ?a0 ?a1 = Finite 100" using cpu_usage_formula [of ?a0 ?a1] ha by blast
  have b: "cpuUsage ?b0 ?b1 = Finite 0" using cpu_usage_formula [of ?b0 ?b1] hb by blast
  have "cpuUsage ?b0 ?c1 =
        Finite (round_real (100 - round_real
          (round_real (round_real (real (unat (idleTimeDelta ?b0 ?c1)))
                       / round_real (real (unat (systemTimeDelta ?b0 ?c1)))) * 100)))"
    using cpu_usage_formula [of ?b0 ?c1] hc by blast
  moreover have "real (unat (idleTimeDelta ?b0 ?c1)) = 10"
    and "real (unat (systemTimeDelta ?b0 ?c1)) = 40" by (simp_all add: ic sc)
  moreover have "round_real (100 - round_real (round_real (round_real 10 / round_real 40) * 100))
      = 75"
    by (simp add: round_real_numerals round_real_quarter)
  ultimately have c: "cpuUsage ?b0 ?c1 = Finite 75" by (simp only:)
  have "\<exists>v. cpuUsage ?d0 ?d1 = Finite v
           \<and> \<bar>v - 100 * (1 - real (unat (idleTimeDelta ?d0 ?d1))
                                / real (unat (systemTimeDelta ?d0 ?d1)))\<bar> \<le> 1 / 2 ^ 44"
    using cpu_usage_formula [of ?d0 ?d1] hd by blast
  moreover have "real (unat (idleTimeDelta ?d0 ?d1)) = 1"
    and "real (unat (systemTimeDelta ?d0 ?d1)) = 3" by (simp_all add: id sd)
  ultimately have d: "\<exists>v. cpuUsage ?d0 ?d1 = Finite v \<and> \<bar>v - 100 * (1 - 1 / 3)\<bar> \<le> 1 / 2 ^ 44"
    by (simp only:)
  have e: "unat (systemTimeDelta ?b0 ?c1) = (40 + 30) - (10 + 20)"
    using cpu_usage_formula [of ?b0 ?c1] by (simp add: QuadPart_low)
  have f: "unat (idleTimeDelta ?b0 ?c1) = 10 - 0"
    using cpu_usage_formula [of ?b0 ?c1] by (simp add: QuadPart_low)
  from a b c d e f show ?thesis by (intro conjI)
qed

text \<open>
  Claim C3 as the specification states it fails on the code: with an idle delta of 1 and a
  system delta of 3 the code computes the double \<open>4691249611844267 / 2 ^ 46\<close>, which is
  not \<open>100 * (1 - 1 / 3) = 200 / 3\<close>; no double is.
\<close>

theorem cpu_usage_formula_counterexample:
  "systemTimeDelta
      \<lparr>idleTime = \<lparr>dwLowDateTime = 0, dwHighDateTime = 0\<rparr>,
       kernelTime = \<lparr>dwLowDateTime = 0, dwHighDateTime = 0\<rparr>,
       userTime = \<lparr>dwLowDateTime = 0, dwHighDateTime = 0\<rparr>\<rparr>
      \<lparr>idleTime = \<lparr>dwLowDateTime = 1, dwHighDateTime = 0\<rparr>,
       kernelTime = \<lparr>dwLowDateTime = 3, dwHighDateTime = 0\<rparr>,
       userTime = \<lparr>dwLowDateTime = 0, dwHighDateTime = 0\<rparr>\<rparr> = 3
   \<and> idleTimeDelta
      \<lparr>idleTime = \<lparr>dwLowDateTime = 0, dwHighDateTime = 0\<rparr>,
       kernelTime = \<lparr>dwLowDateTime = 0, dwHighDateTime = 0\<rparr>,
       userTime = \<lparr>dwLowDateTime = 0, dwHighDateTime = 0\<rparr>\<rparr>
      \<lparr>idleTime = \<lparr>dwLowDateTime = 1, dwHighDateTime = 0\<rparr>,
       kernelTime = \<lparr>dwLowDateTime = 3, dwHighDateTime = 0\<rparr>,
       userTime = \<lparr>dwLowDateTime = 0, dwHighDateTime = 0\<rparr>\<rparr> = 1
   \<and> cpuUsage
      \<lparr>idleTime = \<lparr>dwLowDateTime = 0, dwHighDateTime = 0\<rparr>,
       kernelTime = \<lparr>dwLowDateTime = 0, dwHighDateTime = 0\<rparr>,
       userTime = \<lparr>dwLowDateTime = 0, dwHighDateTime = 0\<rparr>\<rparr>
      \<lparr>idleTime = \<lparr>dwLowDateTime = 1, dwHighDateTime = 0\<rparr>,
       kernelTime = \<lparr>dwLowDateTime = 3, dwHighDateTime = 0\<rparr>,
       userTime = \<lparr>dwLowDateTime = 0, dwHighDateTime = 0\<rparr>\<rparr>
     = Finite (4691249611844267 / 70368744177664)
   \<and> (4691249611844267 / 70368744177664 :: real) \<noteq> 100 * (1 - 1 / 3)
   \<and> cpuUsage
      \<lparr>idleTime = \<lparr>dwLowDateTime = 0, dwHighDateTime = 0\<rparr>,
       kernelTime = \<lparr>dwLowDateTime = 0, dwHighDateTime = 0\<rparr>,
       userTime = \<lparr>dwLowDateTime = 0, dwHighDateTime = 0\<rparr>\<rparr>
      \<lparr>idleTime = \<lparr>dwLowDateTime = 1, dwHighDateTime = 0\<rparr>,
       kernelTime = \<lparr>dwLowDateTime = 3, dwHighDateTime = 0\<rparr>,
       userTime = \<lparr>dwLowDateTime = 0, dwHighDateTime = 0\<rparr>\<rparr>
     \<noteq> Finite (100 * (1 - 1 / 3))"
proof -
  let ?a = "\<lparr>idleTime = \<lparr>dwLowDateTime = 0, dwHighDateTime = 0\<rparr>,
       kernelTime = \<lparr>dwLowDateTime = 0, dwHighDateTime = 0\<rparr>,
       userTime = \<lparr>dwLowDateTime = 0, dwHighDateTime = 0\<rparr>\<rparr>"
  let ?b = "\<lparr>idleTime = \<lparr>dwLowDateTime = 1, dwHighDateTime = 0\<rparr>,
       kernelTime = \<lparr>dwLowDateTime = 3, dwHighDateTime = 0\<rparr>,
       userTime = \<lparr>dwLowDateTime = 0, dwHighDateTime = 0\<rparr>\<rparr>"
  have s: "systemTimeDelta ?a ?b = 3" and i: "idleTimeDelta ?a ?b = 1"
    by (simp_all add: example_deltas)
  have "systemTimeDelta ?a ?b \<noteq> 0" by (simp add: s)
  from cpuUsage_nonzero [OF this]
  have "cpuUsage ?a ?b =
        Finite (round_real (100 - round_real
          (round_real (round_real (real (unat (idleTimeDelta ?a ?b)))
                       / round_real (real (unat (systemTimeDelta ?a ?b)))) * 100)))" .
  moreover have "real (unat (idleTimeDelta ?a ?b)) = 1"
    and "real (unat (systemTimeDelta ?a ?b)) = 3" by (simp_all add: s i)
  ultimately have "cpuUsage ?a ?b =
        Finite (round_real (100 - round_real (round_real (round_real 1 / round_real 3) * 100)))"
    by (simp only:)
  then have c: "cpuUsage ?a ?b = Finite (4691249611844267 / 70368744177664)"
    by (simp only: round_real_numerals round_real_one_third round_real_third_times_100
        round_real_100_minus)
  have n: "(4691249611844267 / 70368744177664 :: real) \<noteq> 100 * (1 - 1 / 3)" by simp
  from c n have m: "cpuUsage ?a ?b \<noteq> Finite (100 * (1 - 1 / 3))" by simp
  from s i c n m show ?thesis by (intro conjI)
qed

subsection \<open>A sampling interval of length zero\<close>

text \<open>
  Claim C2, as the code has it. The specification asks for a distinguished
  \<open>NoMeasurableInterval\<close> result when \<open>systemTimeDelta\<close> is 0. \<open>print_cpu_usage\<close> has no
  such case: it divides by the zero delta and prints what comes out as the utilisation,
  which is NaN when the idle delta is 0 as well and minus infinity otherwise.
\<close>

theorem cpu_usage_zero_interval:
  "systemTimeDelta t1 t2 = 0 \<longrightarrow>
     cpuUsage t1 t2 = (if idleTimeDelta t1 t2 = 0 then NaN else NegInf)
     \<and> events (print_cpu_usage (env\<lparr>first_times := t1, second_times := t2\<rparr>) s)
         = events s @ [GetSystemTimes, Sleep 1000, GetSystemTimes,
             Cout (Msg_CpuUsage (if idleTimeDelta t1 t2 = 0 then NaN else NegInf))]"
  by (simp add: cpuUsage_zero print_cpu_usage_simps)

theorem cpu_usage_zero_interval_witness:
  "systemTimeDelta
      \<lparr>idleTime = \<lparr>dwLowDateTime = 50, dwHighDateTime = 0\<rparr>,
       kernelTime = \<lparr>dwLowDateTime = 40, dwHighDateTime = 0\<rparr>,
       userTime = \<lparr>dwLowDateTime = 40, dwHighDateTime = 0\<rparr>\<rparr>
      \<lparr>idleTime = \<lparr>dwLowDateTime = 55, dwHighDateTime = 0\<rparr>,
       kernelTime = \<lparr>dwLowDateTime = 40, dwHighDateTime = 0\<rparr>,
       userTime = \<lparr>dwLowDateTime = 40, dwHighDateTime = 0\<rparr>\<rparr> = 0
   \<and> cpuUsage
      \<lparr>idleTime = \<lparr>dwLowDateTime = 50, dwHighDateTime = 0\<rparr>,
       kernelTime = \<lparr>dwLowDateTime = 40, dwHighDateTime = 0\<rparr>,
       userTime = \<lparr>dwLowDateTime = 40, dwHighDateTime = 0\<rparr>\<rparr>
      \<lparr>idleTime = \<lparr>dwLowDateTime = 55, dwHighDateTime = 0\<rparr>,
       kernelTime = \<lparr>dwLowDateTime = 40, dwHighDateTime = 0\<rparr>,
       userTime = \<lparr>dwLowDateTime = 40, dwHighDateTime = 0\<rparr>\<rparr> = NegInf"
  using cpu_usage_zero_interval [of
      "\<lparr>idleTime = \<lparr>dwLowDateTime = 50, dwHighDateTime = 0\<rparr>,
       kernelTime = \<lparr>dwLowDateTime = 40, dwHighDateTime = 0\<rparr>,
       userTime = \<lparr>dwLowDateTime = 40, dwHighDateTime = 0\<rparr>\<rparr>"
      "\<lparr>idleTime = \<lparr>dwLowDateTime = 55, dwHighDateTime = 0\<rparr>,
       kernelTime = \<lparr>dwLowDateTime = 40, dwHighDateTime = 0\<rparr>,
       userTime = \<lparr>dwLowDateTime = 40, dwHighDateTime = 0\<rparr>\<rparr>"]
  by (simp add: systemTimeDelta_def idleTimeDelta_def QuadPart_low)

text \<open>
  Claim C2 as the specification states it fails on the code: two identical snapshots have
  a system delta of 0, and the computed utilisation is NaN, so the division is performed.
\<close>

theorem cpu_usage_zero_interval_counterexample:
  "systemTimeDelta
      \<lparr>idleTime = \<lparr>dwLowDateTime = 50, dwHighDateTime = 0\<rparr>,
       kernelTime = \<lparr>dwLowDateTime = 40, dwHighDateTime = 0\<rparr>,
       userTime = \<lparr>dwLowDateTime = 40, dwHighDateTime = 0\<rparr>\<rparr>
      \<lparr>idleTime = \<lparr>dwLowDateTime = 50, dwHighDateTime = 0\<rparr>,
       kernelTime = \<lparr>dwLowDateTime = 40, dwHighDateTime = 0\<rparr>,
       userTime = \<lparr>dwLowDateTime = 40, dwHighDateTime = 0\<rparr>\<rparr> = 0
   \<and> cpuUsage
      \<lparr>idleTime = \<lparr>dwLowDateTime = 50, dwHighDateTime = 0\<rparr>,
       kernelTime = \<lparr>dwLowDateTime = 40, dwHighDateTime = 0\<rparr>,
       userTime = \<lparr>dwLowDateTime = 40, dwHighDateTime = 0\<rparr>\<rparr>
      \<lparr>idleTime = \<lparr>dwLowDateTime = 50, dwHighDateTime = 0\<rparr>,
       kernelTime = \<lparr>dwLowDateTime = 40, dwHighDateTime = 0\<rparr>,
       userTime = \<lparr>dwLowDateTime = 40, dwHighDateTime = 0\<rparr>\<rparr> = NaN"
proof -
  let ?a = "\<lparr>idleTime = \<lparr>dwLowDateTime = 50, dwHighDateTime = 0\<rparr>,
       kernelTime = \<lparr>dwLowDateTime = 40, dwHighDateTime = 0\<rparr>,
       userTime = \<lparr>dwLowDateTime = 40, dwHighDateTime = 0\<rparr>\<rparr>"
  have s: "systemTimeDelta ?a ?a = 0" and i: "idleTimeDelta ?a ?a = 0"
    by (simp_all add: example_deltas)
  from cpuUsage_zero [OF s] i have "cpuUsage ?a ?a = NaN" by simp
  with s show ?thesis by (intro conjI)
qed

section \<open>The driver\<close>

text \<open>
  Claim C4. When the memory reservation fails, \<open>main\<close> returns 1 and no worker thread
  has been started; when it succeeds, \<open>main\<close> runs to its end and returns 0.
\<close>

theorem allocation_failure_exit_code:
  "(\<not> new_succeeds env \<longrightarrow>
      snd (main env) = 1 \<and> threads (fst (main env)) = []
      \<and> (\<forall>e\<in>set (events (fst (main env))). \<not> is_thread_start e))
   \<and> (new_succeeds env \<longrightarrow> snd (main env) = 0)"
  by (simp add: main_failure main_success_simps(1) is_thread_start_def)

theorem allocation_failure_exit_code_witness:
  "\<not> new_succeeds (example_environment False)
   \<and> snd (main (example_environment False)) = 1
   \<and> threads (fst (main (example_environment False))) = []
   \<and> new_succeeds (example_environment True)
   \<and> snd (main (example_environment True)) = 0"
  using allocation_failure_exit_code [of "example_environment False"]
    allocation_failure_exit_code [of "example_environment True"]
  by (simp add: example_environment_def)

lemma read_filled:
  assumes "big_array s = Some \<lparr>block_size = SIZE, block_bytes = (\<lambda>k. if k < SIZE then 1 else g k)\<rparr>"
    and "k < SIZE"
  shows "read_big_array s k = Some 1"
  using assms by (simp add: read_big_array_def)

text \<open>
  Claim C5. After a successful reservation every byte at an offset below \<open>SIZE\<close> holds the
  fill value 1, which is not zero, before any worker thread is started and before any
  measurement; the block still reads 1 everywhere after the workers are started, after
  the hold and after the measurements (\<open>main\<close> deletes it only after them).
\<close>

theorem block_filled_before_workers:
  "new_succeeds env \<longrightarrow>
     (\<forall>k<SIZE. read_big_array (filled_state env) k = Some 1) \<and> (1 :: byte) \<noteq> 0
     \<and> threads (filled_state env) = []
     \<and> (\<forall>e\<in>set (events (filled_state env)). \<not> is_thread_start e \<and> \<not> is_measurement e)
     \<and> (\<forall>k<SIZE. read_big_array (start_load env (filled_state env)) k = Some 1)
     \<and> (\<forall>k<SIZE. read_big_array (hold (start_load env (filled_state env))) k = Some 1)
     \<and> (\<forall>k<SIZE. read_big_array
           (measure_usage env (hold (start_load env (filled_state env)))) k = Some 1)
     \<and> main env = (finish (measure_usage env (hold (start_load env (filled_state env)))), 0)
     \<and> (\<exists>rest. events (fst (main env)) = events (filled_state env) @ rest)"
proof
  assume ok: "new_succeeds env"
  note b = filled_state_simps(3) [OF ok]
  have r0: "\<forall>k<SIZE. read_big_array (filled_state env) k = Some 1"
    using b by (simp add: read_filled)
  have r1: "\<forall>k<SIZE. read_big_array (start_load env (filled_state env)) k = Some 1"
    using b by (simp add: read_filled start_load_simps)
  have r2: "\<forall>k<SIZE. read_big_array (hold (start_load env (filled_state env))) k = Some 1"
    using b by (simp add: read_filled start_load_simps hold_simps)
  have r3: "\<forall>k<SIZE. read_big_array
           (measure_usage env (hold (start_load env (filled_state env)))) k = Some 1"
    using b by (simp add: read_filled start_load_simps hold_simps measure_usage_simps)
  have e: "\<forall>e\<in>set (events (filled_state env)). \<not> is_thread_start e \<and> \<not> is_measurement e"
    by (simp add: filled_state_simps(2) [OF ok] is_thread_start_def is_measurement_def)
  have p: "\<exists>rest. events (fst (main env)) = events (filled_state env) @ rest"
    by (simp add: main_success [OF ok] finish_simps measure_usage_simps hold_simps
        start_load_simps)
  show "(\<forall>k<SIZE. read_big_array (filled_state env) k = Some 1) \<and> (1 :: byte) \<noteq> 0
     \<and> threads (filled_state env) = []
     \<and> (\<forall>e\<in>set (events (filled_state env)). \<not> is_thread_start e \<and> \<not> is_measurement e)
     \<and> (\<forall>k<SIZE. read_big_array (start_load env (filled_state env)) k = Some 1)
     \<and> (\<forall>k<SIZE. read_big_array (hold (start_load env (filled_state env))) k = Some 1)
     \<and> (\<forall>k<SIZE. read_big_array
           (measure_usage env (hold (start_load env (filled_state env)))) k = Some 1)
     \<and> main env = (finish (measure_usage env (hold (start_load env (filled_state env)))), 0)
     \<and> (\<exists>rest. events (fst (main env)) = events (filled_state env) @ rest)"
    using r0 r1 r2 r3 e p filled_state_simps(1) [OF ok] main_success [OF ok] by simp
qed

theorem block_filled_before_workers_witness:
  "new_succeeds (example_environment True)
   \<and> (12345 :: nat) < SIZE
   \<and> read_big_array (filled_state (example_environment True)) 12345 = Some 1
   \<and> read_big_array (measure_usage (example_environment True)
        (hold (start_load (example_environment True)
          (filled_state (example_environment True))))) 12345 = Some 1"
proof -
  have ok: "new_succeeds (example_environment True)" by (simp add: example_environment_def)
  have lt: "(12345 :: nat) < SIZE" by (simp add: SIZE_def)
  from block_filled_before_workers [of "example_environment True"] ok lt
  show ?thesis by blast
qed

text \<open>
  Claim C6. Starting the load appends \<open>n\<close> threads running \<open>cpu_stress\<close> and then \<open>n\<close>
  threads running \<open>cpu_stress2\<close>, where \<open>n\<close> is the number of hardware threads reported to
  the process: \<open>2 * n\<close> handles in all, and a successful run of \<open>main\<close> starts exactly
  those.
\<close>

theorem start_load_spawns_two_per_hardware_thread:
  "threads (start_load env s)
     = threads s
       @ replicate (unat (hardware_concurrency env)) \<lparr>body = Run_cpu_stress, joinable = True\<rparr>
       @ replicate (unat (hardware_concurrency env)) \<lparr>body = Run_cpu_stress2, joinable = True\<rparr>
   \<and> events (start_load env s)
     = events s
       @ replicate (unat (hardware_concurrency env)) (ThreadStart Run_cpu_stress)
       @ replicate (unat (hardware_concurrency env)) (ThreadStart Run_cpu_stress2)
   \<and> length (threads (start_load env s)) = length (threads s) + 2 * unat (hardware_concurrency env)
   \<and> (new_succeeds env \<longrightarrow>
        length (threads (fst (main env))) = 2 * unat (hardware_concurrency env)
        \<and> length (filter (\<lambda>t. body t = Run_cpu_stress) (threads (fst (main env))))
            = unat (hardware_concurrency env)
        \<and> length (filter (\<lambda>t. body t = Run_cpu_stress2) (threads (fst (main env))))
            = unat (hardware_concurrency env)
        \<and> length (filter is_thread_start (events (fst (main env))))
            = 2 * unat (hardware_concurrency env))"
proof (intro conjI impI)
  show "threads (start_load env s)
     = threads s
       @ replicate (unat (hardware_concurrency env)) \<lparr>body = Run_cpu_stress, joinable = True\<rparr>
       @ replicate (unat (hardware_concurrency env)) \<lparr>body = Run_cpu_stress2, joinable = True\<rparr>"
    by (rule start_load_simps)
  show "events (start_load env s)
     = events s
       @ replicate (unat (hardware_concurrency env)) (ThreadStart Run_cpu_stress)
       @ replicate (unat (hardware_concurrency env)) (ThreadStart Run_cpu_stress2)"
    by (rule start_load_simps)
  show "length (threads (start_load env s))
      = length (threads s) + 2 * unat (hardware_concurrency env)"
    by (simp add: start_load_simps)
next
  assume ok: "new_succeeds env"
  show "length (threads (fst (main env))) = 2 * unat (hardware_concurrency env)"
    by (simp add: main_success_simps(2) [OF ok])
  show "length (filter (\<lambda>t. body t = Run_cpu_stress) (threads (fst (main env))))
      = unat (hardware_concurrency env)"
    by (simp add: main_success_simps(2) [OF ok])
  show "length (filter (\<lambda>t. body t = Run_cpu_stress2) (threads (fst (main env))))
      = unat (hardware_concurrency env)"
    by (simp add: main_success_simps(2) [OF ok])
  have "filter is_thread_start (memory_report env) = []"
    using memory_report_plain [of _ env] by (simp add: filter_empty_conv)
  then show "length (filter is_thread_start (events (fst (main env))))
      = 2 * unat (hardware_concurrency env)"
    by (simp add: main_success_simps(3) [OF ok] is_thread_start_def)
qed

theorem start_load_spawns_two_per_hardware_thread_witness:
  "new_succeeds (example_environment True)
   \<and> length (threads (fst (main (example_environment True)))) = 4
   \<and> length (filter is_thread_start (events (fst (main (example_environment True))))) = 4"
  using start_load_spawns_two_per_hardware_thread [of "example_environment True"]
  by (simp add: example_environment_def)

text \<open>
  Claim C8. In every run that reserves its memory, the hold \<open>Sleep(10000)\<close>, ten seconds,
  comes after every thread start and before every measurement: the memory and CPU
  queries are made only once the hold has completed, and the hold begins only once all
  workers are started. A run whose reservation fails measures nothing.
\<close>

theorem measurement_after_hold:
  "(new_succeeds env \<longrightarrow>
      (\<exists>h<length (events (fst (main env))).
          events (fst (main env)) ! h = Sleep (10 * 1000)
          \<and> (\<forall>j<length (events (fst (main env))).
                is_thread_start (events (fst (main env)) ! j) \<longrightarrow> j < h)
          \<and> (\<forall>k<length (events (fst (main env))).
                is_measurement (events (fst (main env)) ! k) \<longrightarrow> h < k)))
   \<and> (\<not> new_succeeds env \<longrightarrow> (\<forall>e\<in>set (events (fst (main env))). \<not> is_measurement e))"
proof (intro conjI impI)
  assume ok: "new_succeeds env"
  have "\<exists>h<length (events (fst (main env))).
          events (fst (main env)) ! h = Sleep 10000
          \<and> (\<forall>j<length (events (fst (main env))).
                is_thread_start (events (fst (main env)) ! j) \<longrightarrow> j < h)
          \<and> (\<forall>k<length (events (fst (main env))).
                is_measurement (events (fst (main env)) ! k) \<longrightarrow> h < k)"
  proof (rule hold_between [OF main_success_simps(3) [OF ok]])
    show "\<forall>e\<in>set ([Cout Msg_Reserving, New SIZE True, Memset 1 SIZE]
          @ replicate (unat (hardware_concurrency env)) (ThreadStart Run_cpu_stress)
          @ replicate (unat (hardware_concurrency env)) (ThreadStart Run_cpu_stress2)
          @ [Cout Msg_Waiting]). \<not> is_measurement e"
      by (auto simp: is_measurement_def)
    show "\<forall>e\<in>set ([Cout Msg_Filled, Cout Msg_MemHeader] @ GetProcessMemoryInfo # memory_report env
          @ [Cout Msg_CpuHeader, GetSystemTimes, Sleep 1000, GetSystemTimes,
             Cout (Msg_CpuUsage (cpuUsage (first_times env) (second_times env))),
             Cout Msg_PressEnter, CinGet, Delete]
          @ replicate (2 * unat (hardware_concurrency env)) Detach). \<not> is_thread_start e"
      using memory_report_plain [of _ env] by (auto simp: is_thread_start_def)
    show "\<not> is_thread_start (Sleep 10000)" by (simp add: is_thread_start_def)
    show "\<not> is_measurement (Sleep 10000)" by (simp add: is_measurement_def)
  qed
  then show "\<exists>h<length (events (fst (main env))).
          events (fst (main env)) ! h = Sleep (10 * 1000)
          \<and> (\<forall>j<length (events (fst (main env))).
                is_thread_start (events (fst (main env)) ! j) \<longrightarrow> j < h)
          \<and> (\<forall>k<length (events (fst (main env))).
                is_measurement (events (fst (main env)) ! k) \<longrightarrow> h < k)"
    by simp
next
  assume "\<not> new_succeeds env"
  then show "\<forall>e\<in>set (events (fst (main env))). \<not> is_measurement e"
    by (simp add: main_failure is_measurement_def)
qed

lemma events_main_example:
  "events (fst (main (example_environment True))) ! 8 = Sleep 10000
   \<and> events (fst (main (example_environment True))) ! 18 = Cout (Msg_CpuUsage (Finite 75))
   \<and> events (fst (main (example_environment True))) ! 12 = Cout (Msg_VmSize 6)"
proof -
  have ok: "new_succeeds (example_environment True)" by (simp add: example_environment_def)
  have n: "unat (hardware_concurrency (example_environment True)) = 2"
    by (simp add: example_environment_def)
  have i: "idleTimeDelta (first_times (example_environment True))
      (second_times (example_environment True)) = 10"
    and s: "systemTimeDelta (first_times (example_environment True))
      (second_times (example_environment True)) = 40"
    by (simp_all add: example_environment_def example_deltas)
  have "systemTimeDelta (first_times (example_environment True))
      (second_times (example_environment True)) \<noteq> 0" by (simp add: s)
  from cpuUsage_nonzero [OF this]
  have c: "cpuUsage (first_times (example_environment True))
      (second_times (example_environment True)) = Finite 75"
    by (simp add: i s round_real_numerals round_real_quarter)
  have m: "memory_report (example_environment True) = [Cout (Msg_VmSize 6), Cout (Msg_VmRSS 4)]"
    by (simp add: example_environment_def memory_report_def megabytes_def)
  show ?thesis
    by (simp add: main_success_simps(3) [OF ok] n c m numeral_2_eq_2)
qed

theorem measurement_after_hold_witness:
  "new_succeeds (example_environment True)
   \<and> (\<exists>h<length (events (fst (main (example_environment True)))).
          events (fst (main (example_environment True))) ! h = Sleep (10 * 1000)
          \<and> (\<forall>j<length (events (fst (main (example_environment True)))).
                is_thread_start (events (fst (main (example_environment True))) ! j) \<longrightarrow> j < h)
          \<and> (\<forall>k<length (events (fst (main (example_environment True)))).
                is_measurement (events (fst (main (example_environment True))) ! k) \<longrightarrow> h < k))
   \<and> \<not> new_succeeds (example_environment False)
   \<and> GetSystemTimes \<notin> set (events (fst (main (example_environment False))))"
proof -
  have ok: "new_succeeds (example_environment True)" by (simp add: example_environment_def)
  have no: "\<not> new_succeeds (example_environment False)" by (simp add: example_environment_def)
  have m: "is_measurement GetSystemTimes" by (simp add: is_measurement_def)
  from measurement_after_hold [of "example_environment True"] ok
    measurement_after_hold [of "example_environment False"] no m
  show ?thesis by blast
qed

end
